theory Spec2Isabelle
  imports Main "HOL-Library.Word"
begin

unbundle bit_operations_syntax

section \<open>The key collaborator\<close>

text \<open>
  \<^verbatim>\<open>IKeybind.h\<close> includes \<^verbatim>\<open>IPushButton.h\<close>, which declares the key class
  (\<^verbatim>\<open>Key = IPushButton\<close>) and its state enumeration (\<^verbatim>\<open>eState = IPushButton::eState\<close>).
  That header is not part of the sources.
\<close>

text \<open>
  Modelled from the spec: the type \<^verbatim>\<open>IPushButton::eState\<close>, declared in the missing
  header. The specification calls it a bitmask-composable enumeration, and
  \<^verbatim>\<open>IKeybind.h\<close> combines its values with \<^verbatim>\<open>&\<close> and \<^verbatim>\<open>|\<close> and tests the result for zero: a
  state is a bit mask. The width of the enumeration is not visible in \<^verbatim>\<open>IKeybind.h\<close>;
  no property below depends on it.
\<close>

type_synonym eState = "8 word"

text \<open>
  Everything else of the header is a parameter of the model: the type \<open>'k\<close> of key
  objects, and one record with the four methods \<^verbatim>\<open>IKeybind\<close> calls on a key (\<^verbatim>\<open>id()\<close>,
  \<^verbatim>\<open>state()\<close>, \<^verbatim>\<open>pushTime()\<close>, \<^verbatim>\<open>update()\<close>) and the values of the five enumerators it
  names (\<^verbatim>\<open>none\<close>, \<^verbatim>\<open>idle\<close>, \<^verbatim>\<open>push\<close>, \<^verbatim>\<open>hold\<close>, \<^verbatim>\<open>delay\<close>). Nothing is assumed about
  them. Identifiers and press times are natural numbers.
\<close>

record 'k IPushButton =
  key_id :: "'k \<Rightarrow> nat"
  key_state :: "'k \<Rightarrow> eState"
  key_pushTime :: "'k \<Rightarrow> nat"
  key_update :: "'k \<Rightarrow> 'k"
  e_none :: eState
  e_idle :: eState
  e_push :: eState
  e_hold :: eState
  e_delay :: eState

section \<open>The class \<^verbatim>\<open>IKeybind<NKey_, NEvent_, KbMax_>\<close>\<close>

text \<open>
  The three template parameters are the fields \<open>Key_Count\<close>, \<open>Event_Count\<close> and
  \<open>Keybind_Max\<close>; the six \<^verbatim>\<open>std::array\<close> members are lists. \<^verbatim>\<open>size_type\<close> is
  \<^verbatim>\<open>uint8_t\<close>: indices and sizes are natural numbers, and \<open>wf\<close> bounds the three
  capacities by 255, so that no counter of the code wraps (the largest value computed
  is \<^verbatim>\<open>i + 1\<close> with \<^verbatim>\<open>i < Event_Count\<close>).
\<close>

record 'k IKeybind =
  Key_Count :: nat
  Event_Count :: nat
  Keybind_Max :: nat
  aKey :: "'k list"
  aKeybind :: "nat list list"
  aKeybindSize :: "nat list"
  aPrimaryKeyState :: "eState list"
  aEventOccurred :: "bool list"
  aUsedAsModifier :: "bool list"

text \<open>
  The invariant of the class: every array has its declared extent, and the indices
  stored in an assigned slot are indices of \<open>aKey\<close>. Outside it the code reads or
  writes out of bounds.
\<close>

definition wf :: "'k IKeybind \<Rightarrow> bool" where
  "wf s \<longleftrightarrow>
     Key_Count s \<le> 255 \<and> Event_Count s \<le> 255 \<and> Keybind_Max s \<le> 255 \<and>
     length (aKey s) = Key_Count s \<and>
     length (aKeybind s) = Event_Count s \<and>
     (\<forall>e \<in> set [0..<Event_Count s]. length (aKeybind s ! e) = Keybind_Max s) \<and>
     length (aKeybindSize s) = Event_Count s \<and>
     length (aPrimaryKeyState s) = Event_Count s \<and>
     length (aEventOccurred s) = Event_Count s \<and>
     length (aUsedAsModifier s) = Key_Count s \<and>
     (\<forall>e \<in> set [0..<Event_Count s]. aKeybindSize s ! e \<le> Keybind_Max s \<and>
        (\<forall>j \<in> set [0..<aKeybindSize s ! e]. aKeybind s ! e ! j < Key_Count s))"

text \<open>\<^verbatim>\<open>std::array::fill\<close>: every element is overwritten, the extent stays.\<close>

definition fill :: "'a \<Rightarrow> 'a list \<Rightarrow> 'a list" where
  "fill v xs = map (\<lambda>_. v) xs"

text \<open>The constructor: the keys are copied, every other array is value-initialised.\<close>

definition construct :: "nat \<Rightarrow> nat \<Rightarrow> 'k list \<Rightarrow> 'k IKeybind" where
  "construct NEvent KbMax keys =
     \<lparr> Key_Count = length keys, Event_Count = NEvent, Keybind_Max = KbMax,
       aKey = keys,
       aKeybind = replicate NEvent (replicate KbMax 0),
       aKeybindSize = replicate NEvent 0,
       aPrimaryKeyState = replicate NEvent 0,
       aEventOccurred = replicate NEvent False,
       aUsedAsModifier = replicate (length keys) False \<rparr>"

subsection \<open>Private helpers\<close>

text \<open>
  \<^verbatim>\<open>isValidSequence\<close>: the loop over \<^verbatim>\<open>j = 1 .. size - 1\<close> with its two early
  returns, then the test of the primary key.
\<close>

function isValidSequence_loop :: "'k IPushButton \<Rightarrow> 'k IKeybind \<Rightarrow> nat \<Rightarrow> nat \<Rightarrow> bool" where
  "isValidSequence_loop B s e j =
     (if j < aKeybindSize s ! e then
        if key_state B (aKey s ! (aKeybind s ! e ! j)) AND (e_push B OR e_hold B OR e_delay B) = 0
        then False
        else if key_pushTime B (aKey s ! (aKeybind s ! e ! j))
                > key_pushTime B (aKey s ! (aKeybind s ! e ! (j - 1)))
        then False
        else isValidSequence_loop B s e (Suc j)
      else key_state B (aKey s ! (aKeybind s ! e ! 0)) \<noteq> e_none B)"
  by pat_completeness auto
termination
  by (relation "measure (\<lambda>(B, s, e, j). aKeybindSize s ! e - j)") auto

declare isValidSequence_loop.simps [simp del]

definition isValidSequence :: "'k IPushButton \<Rightarrow> 'k IKeybind \<Rightarrow> nat \<Rightarrow> bool" where
  "isValidSequence B s e = isValidSequence_loop B s e 1"

definition isUsedAsModifier :: "'k IKeybind \<Rightarrow> nat \<Rightarrow> bool" where
  "isUsedAsModifier s k = aUsedAsModifier s ! k"

definition isEmptyKeybind :: "'k IKeybind \<Rightarrow> nat \<Rightarrow> bool" where
  "isEmptyKeybind s e \<longleftrightarrow> aKeybindSize s ! e = 0"

text \<open>
  \<^verbatim>\<open>markModifiersAsUsed\<close>: \<open>markModifiers_loop s e n\<close> is the flag array once the loop
  has handled the positions \<open>1 .. n\<close>.
\<close>

primrec markModifiers_loop :: "'k IKeybind \<Rightarrow> nat \<Rightarrow> nat \<Rightarrow> bool list" where
  "markModifiers_loop s e 0 = aUsedAsModifier s"
| "markModifiers_loop s e (Suc n) = (markModifiers_loop s e n)[aKeybind s ! e ! Suc n := True]"

definition markModifiersAsUsed :: "'k IKeybind \<Rightarrow> nat \<Rightarrow> 'k IKeybind" where
  "markModifiersAsUsed s e = s\<lparr>aUsedAsModifier := markModifiers_loop s e (aKeybindSize s ! e - 1)\<rparr>"

text \<open>
  \<^verbatim>\<open>searchKeybind\<close>, first loop. The table \<^verbatim>\<open>aKeyBestEventIdx\<close> holds, per key index,
  the event index plus one, and 0 for "no event yet". \<open>candidate_step\<close> is the loop
  body for event \<open>i\<close>; each \<^verbatim>\<open>continue\<close> leaves the table as it is.
\<close>

definition candidate_step :: "'k IPushButton \<Rightarrow> 'k IKeybind \<Rightarrow> nat \<Rightarrow> nat list \<Rightarrow> nat list" where
  "candidate_step B s i best =
     (if isEmptyKeybind s i then best
      else if best ! (aKeybind s ! i ! 0) \<noteq> 0 \<and>
              aKeybindSize s ! i < aKeybindSize s ! (best ! (aKeybind s ! i ! 0) - 1)
      then best
      else if best ! (aKeybind s ! i ! 0) \<noteq> 0 \<and>
              aKeybindSize s ! i = aKeybindSize s ! (best ! (aKeybind s ! i ! 0) - 1) \<and>
              aPrimaryKeyState s ! i AND key_state B (aKey s ! (aKeybind s ! i ! 0)) = 0
      then best
      else if isUsedAsModifier s (aKeybind s ! i ! 0) then best
      else if \<not> isValidSequence B s i then best
      else best[aKeybind s ! i ! 0 := i + 1])"

text \<open>\<open>candidates B s n\<close> is the table after the iterations \<open>i = 0 .. n - 1\<close>.\<close>

primrec candidates :: "'k IPushButton \<Rightarrow> 'k IKeybind \<Rightarrow> nat \<Rightarrow> nat list" where
  "candidates B s 0 = replicate (Key_Count s) 0"
| "candidates B s (Suc n) = candidate_step B s n (candidates B s n)"

text \<open>
  \<^verbatim>\<open>searchKeybind\<close>, second loop: \<open>finalize_step\<close> is the body for key index \<open>i\<close>,
  \<open>finalize B best s n\<close> the object after the iterations \<open>i = 0 .. n - 1\<close>.
\<close>

definition finalize_step :: "'k IPushButton \<Rightarrow> nat list \<Rightarrow> nat \<Rightarrow> 'k IKeybind \<Rightarrow> 'k IKeybind" where
  "finalize_step B best i s =
     (if best ! i = 0 then s
      else if aPrimaryKeyState s ! (best ! i - 1) AND key_state B (aKey s ! i) = 0 then s
      else (markModifiersAsUsed s (best ! i - 1))
             \<lparr>aEventOccurred := (aEventOccurred s)[best ! i - 1 := True]\<rparr>)"

primrec finalize :: "'k IPushButton \<Rightarrow> nat list \<Rightarrow> 'k IKeybind \<Rightarrow> nat \<Rightarrow> 'k IKeybind" where
  "finalize B best s 0 = s"
| "finalize B best s (Suc n) = finalize_step B best n (finalize B best s n)"

definition searchKeybind :: "'k IPushButton \<Rightarrow> 'k IKeybind \<Rightarrow> 'k IKeybind" where
  "searchKeybind B s = finalize B (candidates B s (Event_Count s)) s (Key_Count s)"

subsection \<open>Public interface\<close>

datatype error = out_of_range | invalid_argument

text \<open>
  \<^verbatim>\<open>assign\<close>. \<open>find_key\<close> is the inner loop: the first index from \<open>j\<close> on whose key has
  the identifier, and \<open>Key_Count\<close> when there is none. \<open>assign_loop\<close> is the outer loop
  over the positions \<open>i\<close> of the identifier array \<^verbatim>\<open>key_id_\<close> (here \<open>ids\<close>; \<open>req\<close> is \<^verbatim>\<open>key_state_\<close>); it writes into the slot as it goes
  and stops at the first identifier without a key. An exception leaves the object
  as it is at the \<^verbatim>\<open>throw\<close>: the error value carries that object.
\<close>

function find_key :: "'k IPushButton \<Rightarrow> 'k IKeybind \<Rightarrow> nat \<Rightarrow> nat \<Rightarrow> nat" where
  "find_key B s kid j =
     (if j < Key_Count s then
        if key_id B (aKey s ! j) = kid then j else find_key B s kid (Suc j)
      else j)"
  by pat_completeness auto
termination
  by (relation "measure (\<lambda>(B, s, kid, j). Key_Count s - j)") auto

declare find_key.simps [simp del]

fun assign_loop ::
  "'k IPushButton \<Rightarrow> nat \<Rightarrow> nat list \<Rightarrow> nat list \<Rightarrow> 'k IKeybind \<Rightarrow> (error \<times> 'k IKeybind) + 'k IKeybind"
where
  "assign_loop B event_idx ids [] s = Inr s"
| "assign_loop B event_idx ids (i # is) s =
     (let j = find_key B s (ids ! i) 0 in
      if j = Key_Count s then Inl (invalid_argument, s)
      else assign_loop B event_idx ids is
             (s\<lparr>aKeybind := (aKeybind s)
                   [event_idx := (aKeybind s ! event_idx)[length ids - i - 1 := j]]\<rparr>))"

definition assign ::
  "'k IPushButton \<Rightarrow> nat \<Rightarrow> nat list \<Rightarrow> eState \<Rightarrow> 'k IKeybind \<Rightarrow> (error \<times> 'k IKeybind) + 'k IKeybind"
where
  "assign B event_idx ids req s =
     (if event_idx \<ge> Event_Count s then Inl (out_of_range, s)
      else if length ids > Keybind_Max s then Inl (out_of_range, s)
      else case assign_loop B event_idx ids [0..<length ids] s of
             Inl x \<Rightarrow> Inl x
           | Inr s1 \<Rightarrow>
               Inr (s1\<lparr>aPrimaryKeyState := (aPrimaryKeyState s1)[event_idx := req],
                        aKeybindSize := (aKeybindSize s1)[event_idx := length ids]\<rparr>))"

text \<open>
  \<^verbatim>\<open>update\<close>. \<open>refresh_step\<close> is the body of its loop for key \<open>i\<close>: the key's own
  \<^verbatim>\<open>update()\<close>, then the test that clears the flag. \<open>refresh B s n\<close> is the object after
  the iterations \<open>i = 0 .. n - 1\<close>.
\<close>

definition refresh_step :: "'k IPushButton \<Rightarrow> nat \<Rightarrow> 'k IKeybind \<Rightarrow> 'k IKeybind" where
  "refresh_step B i s =
     (let s1 = s\<lparr>aKey := (aKey s)[i := key_update B (aKey s ! i)]\<rparr> in
      if key_state B (aKey s1 ! i) = e_none B \<or> key_state B (aKey s1 ! i) AND e_idle B \<noteq> 0
      then s1\<lparr>aUsedAsModifier := (aUsedAsModifier s1)[i := False]\<rparr>
      else s1)"

primrec refresh :: "'k IPushButton \<Rightarrow> 'k IKeybind \<Rightarrow> nat \<Rightarrow> 'k IKeybind" where
  "refresh B s 0 = s"
| "refresh B s (Suc n) = refresh_step B n (refresh B s n)"

definition update :: "'k IPushButton \<Rightarrow> 'k IKeybind \<Rightarrow> 'k IKeybind" where
  "update B s =
     searchKeybind B (refresh B (s\<lparr>aEventOccurred := fill False (aEventOccurred s)\<rparr>) (Key_Count s))"

definition isEvent :: "'k IKeybind \<Rightarrow> nat \<Rightarrow> bool" where
  "isEvent s event_idx = (if event_idx \<ge> Event_Count s then False else aEventOccurred s ! event_idx)"

text \<open>\<^verbatim>\<open>isAnyEvent\<close>: the range-for over \<^verbatim>\<open>aEventOccurred\<close> with its early return.\<close>

fun any_occurred :: "bool list \<Rightarrow> bool" where
  "any_occurred [] = False"
| "any_occurred (it # rest) = (if it then True else any_occurred rest)"

definition isAnyEvent :: "'k IKeybind \<Rightarrow> bool" where
  "isAnyEvent s = any_occurred (aEventOccurred s)"

definition clear :: "'k IKeybind \<Rightarrow> 'k IKeybind" where
  "clear s =
     s\<lparr>aKeybind := fill (replicate (Keybind_Max s) 0) (aKeybind s),
       aKeybindSize := fill 0 (aKeybindSize s),
       aPrimaryKeyState := fill 0 (aPrimaryKeyState s),
       aEventOccurred := fill False (aEventOccurred s),
       aUsedAsModifier := fill False (aUsedAsModifier s)\<rparr>"

subsection \<open>Notation\<close>

text \<open>
  Three tests the code writes inline, and the object between the two halves of
  \<^verbatim>\<open>update\<close>: \<open>pressed\<close> is the test of a modifier in \<^verbatim>\<open>isValidSequence\<close>
  (\<^verbatim>\<open>state() & (push | hold | delay)\<close>), \<open>neutral\<close> the test that clears a flag in
  \<^verbatim>\<open>update\<close> (\<^verbatim>\<open>state() == none or state() & idle\<close>), and \<open>refreshed B s\<close> the object
  when \<^verbatim>\<open>update\<close> calls \<^verbatim>\<open>searchKeybind\<close>.
\<close>

abbreviation pressed :: "'k IPushButton \<Rightarrow> 'k \<Rightarrow> bool" where
  "pressed B k \<equiv> key_state B k AND (e_push B OR e_hold B OR e_delay B) \<noteq> 0"

abbreviation neutral :: "'k IPushButton \<Rightarrow> 'k \<Rightarrow> bool" where
  "neutral B k \<equiv> key_state B k = e_none B \<or> key_state B k AND e_idle B \<noteq> 0"

abbreviation refreshed :: "'k IPushButton \<Rightarrow> 'k IKeybind \<Rightarrow> 'k IKeybind" where
  "refreshed B s \<equiv> refresh B (s\<lparr>aEventOccurred := fill False (aEventOccurred s)\<rparr>) (Key_Count s)"

section \<open>A sample configuration\<close>

text \<open>
  A key type to run the functions on: a key is its identifier, its state and its
  press time, its \<^verbatim>\<open>update()\<close> changes nothing (the samples below give the keys the
  state they have after the refresh), and the enumerators are distinct bits with
  \<open>none = 0\<close>. The three keys have the identifiers 10, 20 and 30.
\<close>

type_synonym sample_key = "nat \<times> eState \<times> nat"

definition sampleButton :: "sample_key IPushButton" where
  "sampleButton =
     \<lparr> key_id = (\<lambda>k. fst k), key_state = (\<lambda>k. fst (snd k)), key_pushTime = (\<lambda>k. snd (snd k)),
       key_update = (\<lambda>k. k),
       e_none = 0, e_idle = 1, e_push = 2, e_hold = 4, e_delay = 8 \<rparr>"

text \<open>
  The scenario of the specification's section 8: event 0 is the chord \<open>[10, 20]\<close>, event 1
  the chord \<open>[20]\<close>, both with the required state \<open>push\<close>; key 10 was pressed at tick 5
  and is held, key 20 was pressed at tick 6, key 30 is idle. \<open>sampleFired\<close> is the
  object after one \<open>update\<close>.
\<close>

definition sampleKeys :: "sample_key list" where
  "sampleKeys = [(10, 4, 5), (20, 2, 6), (30, 1, 0)]"

definition sampleState :: "sample_key IKeybind" where
  "sampleState =
     \<lparr> Key_Count = 3, Event_Count = 2, Keybind_Max = 3,
       aKey = sampleKeys,
       aKeybind = [[1, 0, 0], [1, 0, 0]],
       aKeybindSize = [2, 1],
       aPrimaryKeyState = [2, 2],
       aEventOccurred = [False, False],
       aUsedAsModifier = [False, False, False] \<rparr>"

definition sampleFired :: "sample_key IKeybind" where
  "sampleFired = update sampleButton sampleState"

text \<open>
  \<open>sampleHalf\<close> is the scenario with event 0 assigned only. \<open>samplePartial\<close> is the
  scenario after an assignment of \<open>[20, 99]\<close> to event 0 that fails at the identifier 99.
\<close>

definition sampleHalf :: "sample_key IKeybind" where
  "sampleHalf = sampleState\<lparr>aKeybind := [[1, 0, 0], [0, 0, 0]], aKeybindSize := [2, 0],
                            aPrimaryKeyState := [2, 0]\<rparr>"

definition samplePartial :: "sample_key IKeybind" where
  "samplePartial = sampleState\<lparr>aKeybind := [[1, 1, 0], [1, 0, 0]]\<rparr>"

text \<open>
  Further objects over the same three keys (states: 1 idle, 2 push, 4 hold).
  \<open>sampleShared\<close>: the chords \<open>[10, 20]\<close> and \<open>[10, 30]\<close>, all three keys pressed, 10 first.
  \<open>sampleHeld\<close>: the chords \<open>[10, 20]\<close> (push) and \<open>[10]\<close> (hold) one cycle after the first
  fired, keys 10 and 20 held, key 10 flagged.
  \<open>sampleThree\<close>: the chords \<open>[30]\<close>, \<open>[20, 30]\<close> and \<open>[10, 20, 30]\<close>, keys pressed in
  that order.
  \<open>sampleThreeIdle\<close>: the same three chords with key 10 idle, keys 20 and 30 pressed.
  \<open>sampleBoth\<close>: the chords \<open>[10, 20]\<close> (push) and \<open>[10]\<close> (hold), key 10 held, key 20
  just pressed, no flag set.
  \<open>sampleTie\<close>: two chords \<open>[20]\<close>, the first requiring hold, the second push.
  \<open>sampleReversed\<close>: the chord \<open>[10, 20]\<close> (hold) with key 20 pressed at tick 6 and
  key 10 at tick 7.
\<close>

definition sampleShared :: "sample_key IKeybind" where
  "sampleShared = sampleState\<lparr>aKey := [(10, 4, 5), (20, 2, 6), (30, 2, 6)],
                               aKeybind := [[1, 0, 0], [2, 0, 0]], aKeybindSize := [2, 2]\<rparr>"

definition sampleHeld :: "sample_key IKeybind" where
  "sampleHeld = sampleState\<lparr>aKey := [(10, 4, 5), (20, 4, 6), (30, 1, 0)],
                             aKeybind := [[1, 0, 0], [0, 0, 0]], aPrimaryKeyState := [2, 4],
                             aEventOccurred := [True, False],
                             aUsedAsModifier := [True, False, False]\<rparr>"

definition sampleThree :: "sample_key IKeybind" where
  "sampleThree =
     \<lparr> Key_Count = 3, Event_Count = 3, Keybind_Max = 3,
       aKey = [(10, 4, 5), (20, 4, 6), (30, 2, 7)],
       aKeybind = [[2, 0, 0], [2, 1, 0], [2, 1, 0]],
       aKeybindSize = [1, 2, 3],
       aPrimaryKeyState = [2, 2, 2],
       aEventOccurred = [False, False, False],
       aUsedAsModifier = [False, False, False] \<rparr>"

definition sampleThreeIdle :: "sample_key IKeybind" where
  "sampleThreeIdle = sampleThree\<lparr>aKey := [(10, 1, 0), (20, 4, 6), (30, 2, 7)]\<rparr>"

definition sampleBoth :: "sample_key IKeybind" where
  "sampleBoth = sampleState\<lparr>aKeybind := [[1, 0, 0], [0, 0, 0]], aPrimaryKeyState := [2, 4]\<rparr>"

definition sampleTie :: "sample_key IKeybind" where
  "sampleTie = sampleState\<lparr>aKeybindSize := [1, 1], aPrimaryKeyState := [4, 2]\<rparr>"

definition sampleReversed :: "sample_key IKeybind" where
  "sampleReversed = sampleState\<lparr>aKey := [(10, 2, 7), (20, 4, 6), (30, 1, 0)],
                                 aPrimaryKeyState := [4, 2]\<rparr>"

section \<open>The class invariant\<close>

lemma wf_iff:
  "wf s \<longleftrightarrow>
     Key_Count s \<le> 255 \<and> Event_Count s \<le> 255 \<and> Keybind_Max s \<le> 255 \<and>
     length (aKey s) = Key_Count s \<and>
     length (aKeybind s) = Event_Count s \<and>
     (\<forall>e<Event_Count s. length (aKeybind s ! e) = Keybind_Max s) \<and>
     length (aKeybindSize s) = Event_Count s \<and>
     length (aPrimaryKeyState s) = Event_Count s \<and>
     length (aEventOccurred s) = Event_Count s \<and>
     length (aUsedAsModifier s) = Key_Count s \<and>
     (\<forall>e<Event_Count s. aKeybindSize s ! e \<le> Keybind_Max s \<and>
        (\<forall>j<aKeybindSize s ! e. aKeybind s ! e ! j < Key_Count s))"
  unfolding wf_def by (simp add: Ball_def)

lemma wf_size: "wf s \<Longrightarrow> e < Event_Count s \<Longrightarrow> aKeybindSize s ! e \<le> Keybind_Max s"
  by (simp add: wf_iff)

lemma wf_idx:
  "wf s \<Longrightarrow> e < Event_Count s \<Longrightarrow> j < aKeybindSize s ! e \<Longrightarrow> aKeybind s ! e ! j < Key_Count s"
  by (simp add: wf_iff)

lemma wf_construct:
  "length keys \<le> 255 \<Longrightarrow> NEvent \<le> 255 \<Longrightarrow> KbMax \<le> 255 \<Longrightarrow> wf (construct NEvent KbMax keys)"
  by (simp add: wf_iff construct_def)

lemma wf_clear: "wf s \<Longrightarrow> wf (clear s)"
  by (simp add: wf_iff clear_def fill_def)

section \<open>The query surface and \<^verbatim>\<open>clear\<close>\<close>

lemma wf_sampleState: "wf sampleState"
  by code_simp

lemma wf_sampleFired: "wf sampleFired"
  by code_simp

lemma any_occurred_iff: "any_occurred xs \<longleftrightarrow> (\<exists>i<length xs. xs ! i)"
proof (induction xs)
  case Nil
  then show ?case by simp
next
  case (Cons x xs)
  then show ?case by (simp add: Ex_less_Suc2)
qed

text \<open>
  C7. \<open>isEvent\<close> is total: for an index at or beyond the event capacity it is false,
  for an index in range it is the slot's fired flag; \<open>isAnyEvent\<close> holds iff the fired
  flag of some slot is set.
\<close>

theorem isEvent_total:
  assumes "wf s"
  shows "(\<forall>e. Event_Count s \<le> e \<longrightarrow> isEvent s e = False) \<and>
         (\<forall>e<Event_Count s. isEvent s e = aEventOccurred s ! e) \<and>
         (isAnyEvent s \<longleftrightarrow> (\<exists>e<Event_Count s. aEventOccurred s ! e))"
  using assms by (simp add: isEvent_def isAnyEvent_def any_occurred_iff wf_def)

theorem isEvent_total_witness:
  "wf sampleFired \<and> Event_Count sampleFired \<le> 5 \<and> isEvent sampleFired 5 = False \<and>
   0 < Event_Count sampleFired \<and> isEvent sampleFired 0 = aEventOccurred sampleFired ! 0 \<and>
   aEventOccurred sampleFired ! 0 \<and> isAnyEvent sampleFired"
proof -
  have c: "Event_Count sampleFired = 2" "aEventOccurred sampleFired ! 0"
    by code_simp+
  from isEvent_total [OF wf_sampleFired] c wf_sampleFired show ?thesis
    by auto
qed

text \<open>
  C8. After \<open>clear\<close>, whatever the object held before: every entry of every
  definition's index array is zero, every size is zero, every required state is
  empty, every fired flag and every used-as-modifier flag is false; the keys and
  the capacities are untouched. The object equals a freshly constructed one over
  the same keys.
\<close>

theorem clear_resets:
  assumes "wf s"
  shows "(\<forall>e<Event_Count s. \<forall>j<Keybind_Max s. aKeybind (clear s) ! e ! j = 0) \<and>
         (\<forall>e<Event_Count s. aKeybindSize (clear s) ! e = 0) \<and>
         (\<forall>e<Event_Count s. aPrimaryKeyState (clear s) ! e = 0) \<and>
         (\<forall>e<Event_Count s. aEventOccurred (clear s) ! e = False) \<and>
         (\<forall>k<Key_Count s. aUsedAsModifier (clear s) ! k = False) \<and>
         aKey (clear s) = aKey s \<and>
         clear s = construct (Event_Count s) (Keybind_Max s) (aKey s)"
proof -
  have eq: "clear s = construct (Event_Count s) (Keybind_Max s) (aKey s)"
    using assms
    by (intro IKeybind.equality) (simp_all add: clear_def fill_def wf_def construct_def map_replicate_const)
  have "(\<forall>e<Event_Count s. \<forall>j<Keybind_Max s. aKeybind (clear s) ! e ! j = 0) \<and>
         (\<forall>e<Event_Count s. aKeybindSize (clear s) ! e = 0) \<and>
         (\<forall>e<Event_Count s. aPrimaryKeyState (clear s) ! e = 0) \<and>
         (\<forall>e<Event_Count s. aEventOccurred (clear s) ! e = False) \<and>
         (\<forall>k<Key_Count s. aUsedAsModifier (clear s) ! k = False) \<and>
         aKey (clear s) = aKey s"
    using assms by (simp add: clear_def fill_def wf_def)
  with eq show ?thesis by blast
qed

theorem clear_resets_witness:
  "wf sampleFired \<and> 0 < Event_Count sampleFired \<and> 0 < Keybind_Max sampleFired \<and>
   0 < Key_Count sampleFired \<and>
   aKeybindSize sampleFired ! 0 = 2 \<and> aKeybind sampleFired ! 0 ! 0 = 1 \<and>
   aPrimaryKeyState sampleFired ! 0 = 2 \<and> aEventOccurred sampleFired ! 0 \<and>
   aUsedAsModifier sampleFired ! 0 \<and>
   aKeybind (clear sampleFired) ! 0 ! 0 = 0 \<and> aKeybindSize (clear sampleFired) ! 0 = 0 \<and>
   aPrimaryKeyState (clear sampleFired) ! 0 = 0 \<and> aEventOccurred (clear sampleFired) ! 0 = False \<and>
   aUsedAsModifier (clear sampleFired) ! 0 = False \<and>
   aKey (clear sampleFired) = aKey sampleFired \<and>
   clear sampleFired = construct 2 3 sampleKeys"
proof -
  have c: "Event_Count sampleFired = 2" "Keybind_Max sampleFired = 3" "Key_Count sampleFired = 3"
    "aKeybindSize sampleFired ! 0 = 2" "aKeybind sampleFired ! 0 ! 0 = 1"
    "aPrimaryKeyState sampleFired ! 0 = 2" "aEventOccurred sampleFired ! 0"
    "aUsedAsModifier sampleFired ! 0" "aKey sampleFired = sampleKeys"
    by code_simp+
  from clear_resets [OF wf_sampleFired] c wf_sampleFired show ?thesis
    by auto
qed

section \<open>Assignment\<close>

lemma find_key_frame [simp]: "find_key B (s\<lparr>aKeybind := x\<rparr>) kid j = find_key B s kid j"
proof (induction B s kid j rule: find_key.induct)
  case (1 B s kid j)
  show ?case
    using "1.IH" by (subst (1 2) find_key.simps) simp
qed

lemma find_key_spec:
  "j \<le> Key_Count s \<Longrightarrow>
   j \<le> find_key B s kid j \<and> find_key B s kid j \<le> Key_Count s \<and>
   (\<forall>j'. j \<le> j' \<and> j' < find_key B s kid j \<longrightarrow> key_id B (aKey s ! j') \<noteq> kid) \<and>
   (find_key B s kid j < Key_Count s \<longrightarrow> key_id B (aKey s ! find_key B s kid j) = kid)"
proof (induction B s kid j rule: find_key.induct)
  case (1 B s kid j)
  show ?case
  proof (cases "j < Key_Count s \<and> key_id B (aKey s ! j) \<noteq> kid")
    case True
    then have eq: "find_key B s kid j = find_key B s kid (Suc j)"
      by (subst find_key.simps) simp
    from True "1.IH" have IH: "Suc j \<le> find_key B s kid (Suc j) \<and> find_key B s kid (Suc j) \<le> Key_Count s \<and>
      (\<forall>j'. Suc j \<le> j' \<and> j' < find_key B s kid (Suc j) \<longrightarrow> key_id B (aKey s ! j') \<noteq> kid) \<and>
      (find_key B s kid (Suc j) < Key_Count s \<longrightarrow> key_id B (aKey s ! find_key B s kid (Suc j)) = kid)"
      by simp
    have "key_id B (aKey s ! j') \<noteq> kid" if "j \<le> j'" "j' < find_key B s kid (Suc j)" for j'
      using that IH True by (cases "j' = j") auto
    then show ?thesis
      unfolding eq using IH by auto
  next
    case False
    then have "find_key B s kid j = j"
      using "1.prems" by (subst find_key.simps) auto
    then show ?thesis using False "1.prems" by auto
  qed
qed

lemma find_key_none:
  "find_key B s kid 0 = Key_Count s \<longleftrightarrow> (\<forall>j<Key_Count s. key_id B (aKey s ! j) \<noteq> kid)"
proof -
  have sp: "find_key B s kid 0 \<le> Key_Count s"
    "\<And>j'. j' < find_key B s kid 0 \<Longrightarrow> key_id B (aKey s ! j') \<noteq> kid"
    "find_key B s kid 0 < Key_Count s \<Longrightarrow> key_id B (aKey s ! find_key B s kid 0) = kid"
    using find_key_spec [of 0 s B kid] by simp_all
  show ?thesis
  proof
    assume "find_key B s kid 0 = Key_Count s"
    then show "\<forall>j<Key_Count s. key_id B (aKey s ! j) \<noteq> kid" using sp(2) by simp
  next
    assume a: "\<forall>j<Key_Count s. key_id B (aKey s ! j) \<noteq> kid"
    show "find_key B s kid 0 = Key_Count s"
    proof (rule ccontr)
      assume "find_key B s kid 0 \<noteq> Key_Count s"
      then have "find_key B s kid 0 < Key_Count s" using sp(1) by simp
      then show False using a sp(3) by blast
    qed
  qed
qed

lemma find_key_lt:
  "find_key B s kid 0 \<noteq> Key_Count s \<Longrightarrow> find_key B s kid 0 < Key_Count s"
  using find_key_spec [of 0 s B kid] by simp

lemma assign_loop_result:
  assumes "set is \<subseteq> {..<length ids}" "e < length (aKeybind s)"
    "length ids \<le> length (aKeybind s ! e)"
  shows "\<exists>row'. length row' = length (aKeybind s ! e) \<and>
     (case assign_loop B e ids is s of
        Inr s' \<Rightarrow>
          s' = s\<lparr>aKeybind := (aKeybind s)[e := row']\<rparr> \<and>
          (\<forall>i\<in>set is. find_key B s (ids ! i) 0 \<noteq> Key_Count s) \<and>
          (\<forall>p<length row'. row' ! p =
             (if p < length ids \<and> length ids - 1 - p \<in> set is
              then find_key B s (ids ! (length ids - 1 - p)) 0 else aKeybind s ! e ! p))
      | Inl (err, s') \<Rightarrow>
          err = invalid_argument \<and>
          s' = s\<lparr>aKeybind := (aKeybind s)[e := row']\<rparr> \<and>
          (\<exists>ys f zs. is = ys @ f # zs \<and>
             (\<forall>i\<in>set ys. find_key B s (ids ! i) 0 \<noteq> Key_Count s) \<and>
             find_key B s (ids ! f) 0 = Key_Count s \<and>
             (\<forall>p<length row'. row' ! p =
                (if p < length ids \<and> length ids - 1 - p \<in> set ys
                 then find_key B s (ids ! (length ids - 1 - p)) 0 else aKeybind s ! e ! p))))"
  using assms
proof (induction "is" arbitrary: s)
  case Nil
  show ?case
    by (rule exI [of _ "aKeybind s ! e"]) simp
next
  case (Cons i "is")
  let ?j = "find_key B s (ids ! i) 0"
  let ?L = "length ids"
  show ?case
  proof (cases "?j = Key_Count s")
    case True
    have "assign_loop B e ids (i # is) s = Inl (invalid_argument, s)"
      using True by simp
    moreover have "i # is = [] @ i # is" by simp
    ultimately show ?thesis
      using True
      apply (intro exI [of _ "aKeybind s ! e"])
      apply (simp del: assign_loop.simps)
      apply (rule exI [of _ "[]"])
      apply simp
      done
  next
    case False
    define row1 where "row1 = (aKeybind s ! e)[?L - i - 1 := ?j]"
    define s1 where "s1 = s\<lparr>aKeybind := (aKeybind s)[e := row1]\<rparr>"
    have step: "assign_loop B e ids (i # is) s = assign_loop B e ids is s1"
      using False by (simp add: Let_def s1_def row1_def)
    have i: "i < ?L" using Cons.prems by simp
    from Cons.prems have sub: "set is \<subseteq> {..<?L}" by simp
    have s1: "aKeybind s1 ! e = row1" "Key_Count s1 = Key_Count s"
      "\<And>kid. find_key B s1 kid 0 = find_key B s kid 0"
      "\<And>r. s1\<lparr>aKeybind := (aKeybind s1)[e := r]\<rparr> = s\<lparr>aKeybind := (aKeybind s)[e := r]\<rparr>"
      using Cons.prems by (simp_all add: s1_def)
    have e1: "e < length (aKeybind s1)" "length ids \<le> length (aKeybind s1 ! e)"
      using Cons.prems by (simp_all add: s1_def row1_def)
    from Cons.IH [OF sub e1] obtain row' where
      len: "length row' = length row1" and
      res: "(case assign_loop B e ids is s1 of
        Inr s' \<Rightarrow>
          s' = s\<lparr>aKeybind := (aKeybind s)[e := row']\<rparr> \<and>
          (\<forall>i\<in>set is. find_key B s (ids ! i) 0 \<noteq> Key_Count s) \<and>
          (\<forall>p<length row'. row' ! p =
             (if p < length ids \<and> length ids - 1 - p \<in> set is
              then find_key B s (ids ! (length ids - 1 - p)) 0 else row1 ! p))
      | Inl (err, s') \<Rightarrow>
          err = invalid_argument \<and>
          s' = s\<lparr>aKeybind := (aKeybind s)[e := row']\<rparr> \<and>
          (\<exists>ys f zs. is = ys @ f # zs \<and>
             (\<forall>i\<in>set ys. find_key B s (ids ! i) 0 \<noteq> Key_Count s) \<and>
             find_key B s (ids ! f) 0 = Key_Count s \<and>
             (\<forall>p<length row'. row' ! p =
                (if p < length ids \<and> length ids - 1 - p \<in> set ys
                 then find_key B s (ids ! (length ids - 1 - p)) 0 else row1 ! p))))"
      unfolding s1 by blast
    have len': "length row' = length (aKeybind s ! e)"
      using len by (simp add: row1_def)
    have old: "row1 ! p = (if p < ?L \<and> ?L - 1 - p = i then ?j else aKeybind s ! e ! p)"
      if "p < length row'" for p
      using that len' i by (auto simp: row1_def nth_list_update)
    have merge: "row' ! p =
        (if p < ?L \<and> ?L - 1 - p \<in> set (i # xs) then find_key B s (ids ! (?L - 1 - p)) 0
         else aKeybind s ! e ! p)"
      if "p < length row'" and
        "row' ! p = (if p < ?L \<and> ?L - 1 - p \<in> set xs then find_key B s (ids ! (?L - 1 - p)) 0
                     else row1 ! p)" for p xs
      using that(2) old [OF that(1)] by auto
    show ?thesis
    proof (cases "assign_loop B e ids is s1")
      case (Inr s')
      from res Inr have r: "s' = s\<lparr>aKeybind := (aKeybind s)[e := row']\<rparr>"
        "\<forall>i\<in>set is. find_key B s (ids ! i) 0 \<noteq> Key_Count s"
        "\<forall>p<length row'. row' ! p =
             (if p < length ids \<and> length ids - 1 - p \<in> set is
              then find_key B s (ids ! (length ids - 1 - p)) 0 else row1 ! p)"
        by simp_all
      have "\<forall>p<length row'. row' ! p =
             (if p < ?L \<and> ?L - 1 - p \<in> set (i # is)
              then find_key B s (ids ! (?L - 1 - p)) 0 else aKeybind s ! e ! p)"
        using r(3) merge by blast
      moreover have "\<forall>i\<in>set (i # is). find_key B s (ids ! i) 0 \<noteq> Key_Count s"
        using r(2) False by simp
      ultimately show ?thesis
        unfolding step Inr using r(1) len' by (intro exI [of _ row']) simp
    next
      case (Inl x)
      obtain err s' where x: "x = (err, s')" by (cases x)
      from res Inl x obtain ys f zs where
        r: "err = invalid_argument" "s' = s\<lparr>aKeybind := (aKeybind s)[e := row']\<rparr>"
           "is = ys @ f # zs" "\<forall>i\<in>set ys. find_key B s (ids ! i) 0 \<noteq> Key_Count s"
           "find_key B s (ids ! f) 0 = Key_Count s"
           "\<forall>p<length row'. row' ! p =
                (if p < length ids \<and> length ids - 1 - p \<in> set ys
                 then find_key B s (ids ! (length ids - 1 - p)) 0 else row1 ! p)"
        by auto
      have a: "\<forall>p<length row'. row' ! p =
             (if p < ?L \<and> ?L - 1 - p \<in> set (i # ys)
              then find_key B s (ids ! (?L - 1 - p)) 0 else aKeybind s ! e ! p)"
        using r(6) merge by blast
      have b: "\<forall>i\<in>set (i # ys). find_key B s (ids ! i) 0 \<noteq> Key_Count s"
        using r(4) False by simp
      have c: "i # is = (i # ys) @ f # zs" using r(3) by simp
      have "\<exists>ys f zs. i # is = ys @ f # zs \<and>
             (\<forall>i\<in>set ys. find_key B s (ids ! i) 0 \<noteq> Key_Count s) \<and>
             find_key B s (ids ! f) 0 = Key_Count s \<and>
             (\<forall>p<length row'. row' ! p =
                (if p < length ids \<and> length ids - 1 - p \<in> set ys
                 then find_key B s (ids ! (length ids - 1 - p)) 0 else aKeybind s ! e ! p))"
        using a b c r(5) by blast
      then show ?thesis
        unfolding step Inl x using r(1,2) len' by (intro exI [of _ row']) simp
    qed
  qed
qed

lemma upt_split:
  assumes "[0..<L] = ys @ f # zs"
  shows "f < L \<and> set ys = {..<f}"
proof -
  have len: "length ys < L"
    using arg_cong [OF assms, of length] by simp
  have "[0..<L] ! length ys = f"
    unfolding assms by simp
  with len have f: "f = length ys" by simp
  have "take (length ys) [0..<L] = ys"
    unfolding assms by simp
  then have "ys = [0..<length ys]"
    using len by (simp add: take_upt)
  then have "set ys = {..<length ys}"
    by (metis atLeast_upt)
  with f len show ?thesis by simp
qed

lemma assign_loop_upt:
  assumes "wf s" "e < Event_Count s" "length ids \<le> Keybind_Max s"
  shows "(\<exists>row'. length row' = Keybind_Max s \<and>
            assign_loop B e ids [0..<length ids] s = Inr (s\<lparr>aKeybind := (aKeybind s)[e := row']\<rparr>) \<and>
            (\<forall>i<length ids. find_key B s (ids ! i) 0 \<noteq> Key_Count s) \<and>
            (\<forall>p<Keybind_Max s. row' ! p =
               (if p < length ids then find_key B s (ids ! (length ids - 1 - p)) 0
                else aKeybind s ! e ! p))) \<or>
         (\<exists>row' f. length row' = Keybind_Max s \<and> f < length ids \<and>
            assign_loop B e ids [0..<length ids] s =
              Inl (invalid_argument, s\<lparr>aKeybind := (aKeybind s)[e := row']\<rparr>) \<and>
            (\<forall>i<f. find_key B s (ids ! i) 0 \<noteq> Key_Count s) \<and>
            find_key B s (ids ! f) 0 = Key_Count s \<and>
            (\<forall>p<Keybind_Max s. row' ! p =
               (if p < length ids \<and> length ids - 1 - f < p
                then find_key B s (ids ! (length ids - 1 - p)) 0
                else aKeybind s ! e ! p)))"
proof -
  let ?L = "length ids"
  have e: "e < length (aKeybind s)" and K: "length (aKeybind s ! e) = Keybind_Max s"
    using assms(1,2) by (simp_all add: wf_def)
  have L: "?L \<le> length (aKeybind s ! e)" using K assms(3) by simp
  have sub: "set [0..<?L] \<subseteq> {..<?L}" by auto
  from assign_loop_result [OF sub e L, of B] obtain row' where
    len: "length row' = Keybind_Max s" and
    res: "(case assign_loop B e ids [0..<?L] s of
        Inr s' \<Rightarrow>
          s' = s\<lparr>aKeybind := (aKeybind s)[e := row']\<rparr> \<and>
          (\<forall>i\<in>set [0..<?L]. find_key B s (ids ! i) 0 \<noteq> Key_Count s) \<and>
          (\<forall>p<length row'. row' ! p =
             (if p < length ids \<and> length ids - 1 - p \<in> set [0..<?L]
              then find_key B s (ids ! (length ids - 1 - p)) 0 else aKeybind s ! e ! p))
      | Inl (err, s') \<Rightarrow>
          err = invalid_argument \<and>
          s' = s\<lparr>aKeybind := (aKeybind s)[e := row']\<rparr> \<and>
          (\<exists>ys f zs. [0..<?L] = ys @ f # zs \<and>
             (\<forall>i\<in>set ys. find_key B s (ids ! i) 0 \<noteq> Key_Count s) \<and>
             find_key B s (ids ! f) 0 = Key_Count s \<and>
             (\<forall>p<length row'. row' ! p =
                (if p < length ids \<and> length ids - 1 - p \<in> set ys
                 then find_key B s (ids ! (length ids - 1 - p)) 0 else aKeybind s ! e ! p))))"
    unfolding K by blast
  show ?thesis
  proof (cases "assign_loop B e ids [0..<?L] s")
    case (Inr s')
    from res have r0: "s' = s\<lparr>aKeybind := (aKeybind s)[e := row']\<rparr> \<and>
          (\<forall>i\<in>set [0..<?L]. find_key B s (ids ! i) 0 \<noteq> Key_Count s) \<and>
          (\<forall>p<length row'. row' ! p =
             (if p < length ids \<and> length ids - 1 - p \<in> set [0..<?L]
              then find_key B s (ids ! (length ids - 1 - p)) 0 else aKeybind s ! e ! p))"
      unfolding Inr sum.case .
    have mem: "(p < ?L \<and> ?L - 1 - p \<in> set [0..<?L]) = (p < ?L)" for p
      by auto
    have r: "s' = s\<lparr>aKeybind := (aKeybind s)[e := row']\<rparr>"
      "\<forall>i<?L. find_key B s (ids ! i) 0 \<noteq> Key_Count s"
      "\<forall>p<Keybind_Max s. row' ! p =
             (if p < ?L then find_key B s (ids ! (?L - 1 - p)) 0 else aKeybind s ! e ! p)"
      using r0 unfolding mem len by simp_all
    show ?thesis
      apply (rule disjI1)
      apply (rule exI [of _ row'])
      using Inr r len apply blast
      done
  next
    case (Inl x)
    obtain err s' where x: "x = (err, s')" by (cases x)
    from res Inl x obtain ys f zs where
      r: "err = invalid_argument" "s' = s\<lparr>aKeybind := (aKeybind s)[e := row']\<rparr>"
         "[0..<?L] = ys @ f # zs" "\<forall>i\<in>set ys. find_key B s (ids ! i) 0 \<noteq> Key_Count s"
         "find_key B s (ids ! f) 0 = Key_Count s"
         "\<forall>p<length row'. row' ! p =
                (if p < ?L \<and> ?L - 1 - p \<in> set ys
                 then find_key B s (ids ! (?L - 1 - p)) 0 else aKeybind s ! e ! p)"
      by auto
    from upt_split [OF r(3)] have f: "f < ?L" and ys: "set ys = {..<f}" by simp_all
    have mem: "(p < ?L \<and> ?L - 1 - p \<in> set ys) = (p < ?L \<and> ?L - 1 - f < p)" for p
      using f unfolding ys by auto
    have a: "\<forall>p<Keybind_Max s. row' ! p =
               (if p < ?L \<and> ?L - 1 - f < p
                then find_key B s (ids ! (?L - 1 - p)) 0 else aKeybind s ! e ! p)"
      using r(6) unfolding mem len by blast
    have b: "\<forall>i<f. find_key B s (ids ! i) 0 \<noteq> Key_Count s"
      using r(4) unfolding ys by simp
    show ?thesis
      apply (rule disjI2)
      apply (rule exI [of _ row'])
      apply (rule exI [of _ f])
      using Inl x r(1,2,5) a b f len apply blast
      done
  qed
qed

lemma find_key_hit:
  assumes "find_key B s kid 0 \<noteq> Key_Count s"
  shows "find_key B s kid 0 < Key_Count s \<and> key_id B (aKey s ! find_key B s kid 0) = kid \<and>
         (\<forall>j<find_key B s kid 0. key_id B (aKey s ! j) \<noteq> kid)"
  using find_key_spec [of 0 s B kid] assms by simp

lemma assign_Inr:
  assumes "wf s" "assign B e ids req s = Inr s'"
  shows "e < Event_Count s \<and> length ids \<le> Keybind_Max s \<and>
         (\<forall>i<length ids. find_key B s (ids ! i) 0 \<noteq> Key_Count s) \<and>
         (\<exists>row'. length row' = Keybind_Max s \<and>
            s' = s\<lparr>aKeybind := (aKeybind s)[e := row'],
                   aPrimaryKeyState := (aPrimaryKeyState s)[e := req],
                   aKeybindSize := (aKeybindSize s)[e := length ids]\<rparr> \<and>
            (\<forall>p<Keybind_Max s. row' ! p =
               (if p < length ids then find_key B s (ids ! (length ids - 1 - p)) 0
                else aKeybind s ! e ! p)))"
proof -
  have e: "e < Event_Count s" and L: "length ids \<le> Keybind_Max s"
    using assms(2) by (auto simp: assign_def split: if_splits)
  have not_le: "\<not> Event_Count s \<le> e" "\<not> Keybind_Max s < length ids"
    using e L by simp_all
  from assign_loop_upt [OF assms(1) e L, of B] show ?thesis
  proof (elim disjE exE conjE)
    fix row'
    assume a: "length row' = Keybind_Max s"
      "assign_loop B e ids [0..<length ids] s = Inr (s\<lparr>aKeybind := (aKeybind s)[e := row']\<rparr>)"
      "\<forall>i<length ids. find_key B s (ids ! i) 0 \<noteq> Key_Count s"
      "\<forall>p<Keybind_Max s. row' ! p =
               (if p < length ids then find_key B s (ids ! (length ids - 1 - p)) 0
                else aKeybind s ! e ! p)"
    have "assign B e ids req s =
          Inr (s\<lparr>aKeybind := (aKeybind s)[e := row'],
                   aPrimaryKeyState := (aPrimaryKeyState s)[e := req],
                   aKeybindSize := (aKeybindSize s)[e := length ids]\<rparr>)"
      unfolding assign_def using not_le a(2) by simp
    with assms(2) have "s' = s\<lparr>aKeybind := (aKeybind s)[e := row'],
                   aPrimaryKeyState := (aPrimaryKeyState s)[e := req],
                   aKeybindSize := (aKeybindSize s)[e := length ids]\<rparr>"
      by simp
    with a e L show ?thesis by blast
  next
    fix row' f
    assume "assign_loop B e ids [0..<length ids] s =
              Inl (invalid_argument, s\<lparr>aKeybind := (aKeybind s)[e := row']\<rparr>)"
    then have "assign B e ids req s = Inl (invalid_argument, s\<lparr>aKeybind := (aKeybind s)[e := row']\<rparr>)"
      unfolding assign_def using not_le by simp
    with assms(2) show ?thesis by simp
  qed
qed

lemma assign_Inl:
  assumes "wf s" "assign B e ids req s = Inl (invalid_argument, s')"
  shows "e < Event_Count s \<and> length ids \<le> Keybind_Max s \<and>
         (\<exists>row' f. length row' = Keybind_Max s \<and> f < length ids \<and>
            s' = s\<lparr>aKeybind := (aKeybind s)[e := row']\<rparr> \<and>
            (\<forall>i<f. find_key B s (ids ! i) 0 \<noteq> Key_Count s) \<and>
            find_key B s (ids ! f) 0 = Key_Count s \<and>
            (\<forall>p<Keybind_Max s. row' ! p =
               (if p < length ids \<and> length ids - 1 - f < p
                then find_key B s (ids ! (length ids - 1 - p)) 0
                else aKeybind s ! e ! p)))"
proof -
  have e: "e < Event_Count s" and L: "length ids \<le> Keybind_Max s"
    using assms(2) by (auto simp: assign_def split: if_splits)
  have not_le: "\<not> Event_Count s \<le> e" "\<not> Keybind_Max s < length ids"
    using e L by simp_all
  from assign_loop_upt [OF assms(1) e L, of B] show ?thesis
  proof (elim disjE exE conjE)
    fix row'
    assume "assign_loop B e ids [0..<length ids] s = Inr (s\<lparr>aKeybind := (aKeybind s)[e := row']\<rparr>)"
    then have "\<exists>x. assign B e ids req s = Inr x"
      unfolding assign_def using not_le by simp
    with assms(2) show ?thesis by auto
  next
    fix row' f
    assume a: "length row' = Keybind_Max s" "f < length ids"
      "assign_loop B e ids [0..<length ids] s =
              Inl (invalid_argument, s\<lparr>aKeybind := (aKeybind s)[e := row']\<rparr>)"
      "\<forall>i<f. find_key B s (ids ! i) 0 \<noteq> Key_Count s"
      "find_key B s (ids ! f) 0 = Key_Count s"
      "\<forall>p<Keybind_Max s. row' ! p =
               (if p < length ids \<and> length ids - 1 - f < p
                then find_key B s (ids ! (length ids - 1 - p)) 0
                else aKeybind s ! e ! p)"
    have "assign B e ids req s = Inl (invalid_argument, s\<lparr>aKeybind := (aKeybind s)[e := row']\<rparr>)"
      unfolding assign_def using not_le a(3) by simp
    with assms(2) have "s' = s\<lparr>aKeybind := (aKeybind s)[e := row']\<rparr>"
      by simp
    with a e L show ?thesis by blast
  qed
qed

lemma wf_assign:
  assumes "wf s" "assign B e ids req s = Inr s'"
  shows "wf s'"
proof -
  from assign_Inr [OF assms] obtain row' where
    e: "e < Event_Count s" and L: "length ids \<le> Keybind_Max s" and
    found: "\<forall>i<length ids. find_key B s (ids ! i) 0 \<noteq> Key_Count s" and
    len: "length row' = Keybind_Max s" and
    s': "s' = s\<lparr>aKeybind := (aKeybind s)[e := row'],
                   aPrimaryKeyState := (aPrimaryKeyState s)[e := req],
                   aKeybindSize := (aKeybindSize s)[e := length ids]\<rparr>" and
    row: "\<forall>p<Keybind_Max s. row' ! p =
               (if p < length ids then find_key B s (ids ! (length ids - 1 - p)) 0
                else aKeybind s ! e ! p)"
    by blast
  have new: "row' ! j < Key_Count s" if "j < length ids" for j
  proof -
    have "row' ! j = find_key B s (ids ! (length ids - 1 - j)) 0"
      using row that L by simp
    moreover have "find_key B s (ids ! (length ids - 1 - j)) 0 \<noteq> Key_Count s"
      using found that by simp
    ultimately show ?thesis using find_key_lt by metis
  qed
  show ?thesis
    using assms(1) e L len new unfolding s' wf_iff
    by (auto simp: nth_list_update)
qed

text \<open>
  The sample objects of the scenarios are what the constructor and \<open>assign\<close> build.
\<close>

lemma sampleState_assigned:
  "(case assign sampleButton 0 [10, 20] 2 (construct 2 3 sampleKeys) of
      Inl _ \<Rightarrow> None
    | Inr s1 \<Rightarrow> (case assign sampleButton 1 [20] 2 s1 of Inl _ \<Rightarrow> None | Inr s2 \<Rightarrow> Some s2))
   = Some sampleState"
  by code_simp

lemma sampleShared_assigned:
  "(case assign sampleButton 0 [10, 20] 2 (construct 2 3 [(10, 4, 5), (20, 2, 6), (30, 2, 6)]) of
      Inl _ \<Rightarrow> None
    | Inr s1 \<Rightarrow> (case assign sampleButton 1 [10, 30] 2 s1 of Inl _ \<Rightarrow> None | Inr s2 \<Rightarrow> Some s2))
   = Some sampleShared"
  by code_simp

lemma sampleThree_assigned:
  "(case assign sampleButton 0 [30] 2 (construct 3 3 [(10, 4, 5), (20, 4, 6), (30, 2, 7)]) of
      Inl _ \<Rightarrow> None
    | Inr s1 \<Rightarrow>
        (case assign sampleButton 1 [20, 30] 2 s1 of
           Inl _ \<Rightarrow> None
         | Inr s2 \<Rightarrow>
             (case assign sampleButton 2 [10, 20, 30] 2 s2 of Inl _ \<Rightarrow> None | Inr s3 \<Rightarrow> Some s3)))
   = Some sampleThree"
  by code_simp

text \<open>
  C5. After a successful \<open>assign\<close> of a sequence of length \<open>L\<close>, the slot's index array
  holds the sequence reversed: the stored position \<open>p < L\<close> is the storage index of the
  key whose identifier was at input position \<open>L - 1 - p\<close> (the first key with that
  identifier, as the linear lookup finds it), so position 0 holds the key of the
  last-supplied identifier; the slot's size is \<open>L\<close> and its required primary state is
  the given state.
\<close>

theorem assign_stores_reversed:
  assumes "wf s" "assign B e ids req s = Inr s'"
  shows "(\<forall>p<length ids.
            aKeybind s' ! e ! p < Key_Count s \<and>
            key_id B (aKey s ! (aKeybind s' ! e ! p)) = ids ! (length ids - 1 - p) \<and>
            (\<forall>j<aKeybind s' ! e ! p. key_id B (aKey s ! j) \<noteq> ids ! (length ids - 1 - p))) \<and>
         aKeybindSize s' ! e = length ids \<and>
         aPrimaryKeyState s' ! e = req \<and>
         aKey s' = aKey s"
proof -
  from assign_Inr [OF assms] obtain row' where
    e: "e < Event_Count s" and L: "length ids \<le> Keybind_Max s" and
    found: "\<forall>i<length ids. find_key B s (ids ! i) 0 \<noteq> Key_Count s" and
    s': "s' = s\<lparr>aKeybind := (aKeybind s)[e := row'],
                   aPrimaryKeyState := (aPrimaryKeyState s)[e := req],
                   aKeybindSize := (aKeybindSize s)[e := length ids]\<rparr>" and
    row: "\<forall>p<Keybind_Max s. row' ! p =
               (if p < length ids then find_key B s (ids ! (length ids - 1 - p)) 0
                else aKeybind s ! e ! p)"
    by blast
  have len: "e < length (aKeybind s)" "e < length (aKeybindSize s)" "e < length (aPrimaryKeyState s)"
    using assms(1) e by (simp_all add: wf_def)
  have sel: "aKeybind s' ! e = row'" "aKeybindSize s' ! e = length ids"
    "aPrimaryKeyState s' ! e = req" "aKey s' = aKey s"
    using len by (simp_all add: s')
  have "aKeybind s' ! e ! p < Key_Count s \<and>
        key_id B (aKey s ! (aKeybind s' ! e ! p)) = ids ! (length ids - 1 - p) \<and>
        (\<forall>j<aKeybind s' ! e ! p. key_id B (aKey s ! j) \<noteq> ids ! (length ids - 1 - p))"
    if p: "p < length ids" for p
  proof -
    have "row' ! p = find_key B s (ids ! (length ids - 1 - p)) 0"
      using row p L by simp
    moreover have "find_key B s (ids ! (length ids - 1 - p)) 0 \<noteq> Key_Count s"
      using found p by simp
    ultimately show ?thesis
      unfolding sel using find_key_hit by metis
  qed
  with sel show ?thesis by blast
qed


theorem assign_stores_reversed_witness:
  "wf (construct 2 3 sampleKeys) \<and>
   assign sampleButton 0 [10, 20] 2 (construct 2 3 sampleKeys) = Inr sampleHalf \<and>
   aKeybind sampleHalf ! 0 ! 0 = 1 \<and> aKeybind sampleHalf ! 0 ! 1 = 0 \<and>
   key_id sampleButton (aKey (construct 2 3 sampleKeys) ! (aKeybind sampleHalf ! 0 ! 0)) = 20 \<and>
   key_id sampleButton (aKey (construct 2 3 sampleKeys) ! (aKeybind sampleHalf ! 0 ! 1)) = 10 \<and>
   aKeybindSize sampleHalf ! 0 = 2 \<and> aPrimaryKeyState sampleHalf ! 0 = 2"
proof -
  have h: "wf (construct 2 3 sampleKeys)"
    "assign sampleButton 0 [10, 20] 2 (construct 2 3 sampleKeys) = Inr sampleHalf"
    by code_simp+
  have v: "aKeybind sampleHalf ! 0 ! 0 = 1" "aKeybind sampleHalf ! 0 ! 1 = 0"
    by code_simp+
  note T = assign_stores_reversed [OF h]
  have p0: "key_id sampleButton (aKey (construct 2 3 sampleKeys) ! (aKeybind sampleHalf ! 0 ! 0)) = 20"
    using T [THEN conjunct1, rule_format, of 0] by simp
  have p1: "key_id sampleButton (aKey (construct 2 3 sampleKeys) ! (aKeybind sampleHalf ! 0 ! 1)) = 10"
    using T [THEN conjunct1, rule_format, of 1] by simp
  have sz: "aKeybindSize sampleHalf ! 0 = 2" "aPrimaryKeyState sampleHalf ! 0 = 2"
    using T by simp_all
  from h v p0 p1 sz show ?thesis by blast
qed

text \<open>
  C6. \<open>assign\<close> signals out-of-range iff the event index is at or beyond the event
  capacity or the sequence is longer than the maximum chord length; within those
  bounds it signals invalid-argument iff some supplied identifier is the identifier of
  no managed key; and it succeeds exactly when neither is the case.
\<close>

theorem assign_errors:
  assumes "wf s"
  shows "((\<exists>s'. assign B e ids req s = Inl (out_of_range, s')) \<longleftrightarrow>
            Event_Count s \<le> e \<or> Keybind_Max s < length ids) \<and>
         (e < Event_Count s \<and> length ids \<le> Keybind_Max s \<longrightarrow>
            ((\<exists>s'. assign B e ids req s = Inl (invalid_argument, s')) \<longleftrightarrow>
               (\<exists>i<length ids. \<forall>j<Key_Count s. key_id B (aKey s ! j) \<noteq> ids ! i))) \<and>
         ((\<exists>s'. assign B e ids req s = Inr s') \<longleftrightarrow>
            e < Event_Count s \<and> length ids \<le> Keybind_Max s \<and>
            (\<forall>i<length ids. \<exists>j<Key_Count s. key_id B (aKey s ! j) = ids ! i))"
proof (cases "e < Event_Count s \<and> length ids \<le> Keybind_Max s")
  case False
  then show ?thesis by (auto simp: assign_def)
next
  case True
  then have e: "e < Event_Count s" and L: "length ids \<le> Keybind_Max s" by simp_all
  have nf: "(find_key B s (ids ! i) 0 = Key_Count s) =
            (\<forall>j<Key_Count s. key_id B (aKey s ! j) \<noteq> ids ! i)" for i
    by (rule find_key_none)
  from assign_loop_upt [OF assms e L, of B]
  consider
    (ok) row' where "assign_loop B e ids [0..<length ids] s = Inr (s\<lparr>aKeybind := (aKeybind s)[e := row']\<rparr>)"
      "\<forall>i<length ids. find_key B s (ids ! i) 0 \<noteq> Key_Count s"
  | (bad) row' f where "f < length ids"
      "assign_loop B e ids [0..<length ids] s =
         Inl (invalid_argument, s\<lparr>aKeybind := (aKeybind s)[e := row']\<rparr>)"
      "find_key B s (ids ! f) 0 = Key_Count s"
    by blast
  then show ?thesis
  proof cases
    case ok
    have "\<forall>i<length ids. \<exists>j<Key_Count s. key_id B (aKey s ! j) = ids ! i"
      using ok(2) unfolding nf by blast
    then show ?thesis
      using e L ok(1) by (auto simp: assign_def)
  next
    case bad
    have "\<exists>i<length ids. \<forall>j<Key_Count s. key_id B (aKey s ! j) \<noteq> ids ! i"
      using bad(1,3) unfolding nf by blast
    then show ?thesis
      using e L bad(2) by (auto simp: assign_def)
  qed
qed


theorem assign_errors_witness:
  "wf sampleState \<and> 0 < Event_Count sampleState \<and> length [20, 99::nat] \<le> Keybind_Max sampleState \<and>
   assign sampleButton 0 [20, 99] 2 sampleState = Inl (invalid_argument, samplePartial) \<and>
   (\<exists>i<length [20, 99::nat]. \<forall>j<Key_Count sampleState.
      key_id sampleButton (aKey sampleState ! j) \<noteq> [20, 99] ! i) \<and>
   \<not> (\<exists>s'. assign sampleButton 0 [20, 99] 2 sampleState = Inr s') \<and>
   Event_Count sampleState \<le> 2 \<and>
   (\<exists>s'. assign sampleButton 2 [20] 2 sampleState = Inl (out_of_range, s'))"
proof -
  have a: "assign sampleButton 0 [20, 99] 2 sampleState = Inl (invalid_argument, samplePartial)"
    by code_simp
  have c: "Event_Count sampleState = 2" "Keybind_Max sampleState = 3"
    by code_simp+
  have b: "0 < Event_Count sampleState \<and> length [20, 99::nat] \<le> Keybind_Max sampleState"
    unfolding c by simp
  note T = assign_errors [OF wf_sampleState, of sampleButton 0 "[20, 99]" 2]
  have ex: "\<exists>s'. assign sampleButton 0 [20, 99] 2 sampleState = Inl (invalid_argument, s')"
    using a by (rule exI)
  have miss: "\<exists>i<length [20, 99::nat]. \<forall>j<Key_Count sampleState.
      key_id sampleButton (aKey sampleState ! j) \<noteq> [20, 99] ! i"
    using T [THEN conjunct2, THEN conjunct1, rule_format, OF b] ex by (rule iffD1)
  have no: "\<not> (\<exists>s'. assign sampleButton 0 [20, 99] 2 sampleState = Inr s')"
    unfolding a by simp
  have oor: "\<exists>s'. assign sampleButton 2 [20] 2 sampleState = Inl (out_of_range, s')"
    using assign_errors [OF wf_sampleState, of sampleButton 2 "[20]" 2, THEN conjunct1] c(1)
    by simp
  have le: "Event_Count sampleState \<le> 2" unfolding c by simp
  from wf_sampleState b a miss no le oor show ?thesis by blast
qed

lemma wf_row_update:
  assumes "wf s" "e < Event_Count s" "length row' = Keybind_Max s"
    "\<forall>j<aKeybindSize s ! e. row' ! j < Key_Count s"
  shows "wf (s\<lparr>aKeybind := (aKeybind s)[e := row']\<rparr>)"
  using assms by (auto simp: wf_iff nth_list_update)

text \<open>
  C10. When \<open>assign\<close> fails with invalid-argument, the sizes and the required states
  are those from before the call (as are the keys and the flags), the other slots'
  index arrays are untouched, and in the target slot only the positions of the
  identifiers before the failing one (input position \<open>f\<close>, hence stored positions above
  \<open>L - 1 - f\<close>) are rewritten, each with the index of a key of that identifier. The
  slot still reports its old size over the partly rewritten array, and the object
  still satisfies the class invariant.
\<close>

theorem assign_invalid_keeps_size:
  assumes "wf s" "assign B e ids req s = Inl (invalid_argument, s')"
  shows "aKeybindSize s' = aKeybindSize s \<and> aPrimaryKeyState s' = aPrimaryKeyState s \<and>
         aKey s' = aKey s \<and> aEventOccurred s' = aEventOccurred s \<and>
         aUsedAsModifier s' = aUsedAsModifier s \<and>
         (\<forall>e'<Event_Count s. e' \<noteq> e \<longrightarrow> aKeybind s' ! e' = aKeybind s ! e') \<and>
         (\<exists>f<length ids.
            (\<forall>j<Key_Count s. key_id B (aKey s ! j) \<noteq> ids ! f) \<and>
            (\<forall>p<Keybind_Max s.
               if p < length ids \<and> length ids - 1 - f < p
               then aKeybind s' ! e ! p < Key_Count s \<and>
                    key_id B (aKey s ! (aKeybind s' ! e ! p)) = ids ! (length ids - 1 - p)
               else aKeybind s' ! e ! p = aKeybind s ! e ! p)) \<and>
         wf s'"
proof -
  from assign_Inl [OF assms] obtain row' f where
    e: "e < Event_Count s" and L: "length ids \<le> Keybind_Max s" and
    len: "length row' = Keybind_Max s" and f: "f < length ids" and
    s': "s' = s\<lparr>aKeybind := (aKeybind s)[e := row']\<rparr>" and
    found: "\<forall>i<f. find_key B s (ids ! i) 0 \<noteq> Key_Count s" and
    miss: "find_key B s (ids ! f) 0 = Key_Count s" and
    row: "\<forall>p<Keybind_Max s. row' ! p =
               (if p < length ids \<and> length ids - 1 - f < p
                then find_key B s (ids ! (length ids - 1 - p)) 0
                else aKeybind s ! e ! p)"
    by blast
  have elen: "e < length (aKeybind s)"
    using assms(1) e by (simp add: wf_def)
  have sel: "aKeybind s' ! e = row'"
    using elen by (simp add: s')
  have new: "row' ! p < Key_Count s \<and> key_id B (aKey s ! (row' ! p)) = ids ! (length ids - 1 - p)"
    if p: "p < length ids" "length ids - 1 - f < p" for p
  proof -
    have "length ids - 1 - p < f" using p f by arith
    then have "find_key B s (ids ! (length ids - 1 - p)) 0 \<noteq> Key_Count s"
      using found by simp
    moreover have "row' ! p = find_key B s (ids ! (length ids - 1 - p)) 0"
      using row p L by simp
    ultimately show ?thesis using find_key_hit by metis
  qed
  have keep: "row' ! p = aKeybind s ! e ! p"
    if "p < Keybind_Max s" "\<not> (p < length ids \<and> length ids - 1 - f < p)" for p
  proof -
    have "row' ! p = (if p < length ids \<and> length ids - 1 - f < p
                then find_key B s (ids ! (length ids - 1 - p)) 0
                else aKeybind s ! e ! p)"
      using row that(1) by blast
    then show ?thesis using that(2) by (simp only: if_not_P if_False)
  qed
  have rows: "\<forall>p<Keybind_Max s.
               if p < length ids \<and> length ids - 1 - f < p
               then aKeybind s' ! e ! p < Key_Count s \<and>
                    key_id B (aKey s ! (aKeybind s' ! e ! p)) = ids ! (length ids - 1 - p)
               else aKeybind s' ! e ! p = aKeybind s ! e ! p"
    unfolding sel using new keep by simp
  have "\<forall>j<Key_Count s. key_id B (aKey s ! j) \<noteq> ids ! f"
    using miss by (simp add: find_key_none)
  with rows f have ex: "\<exists>f<length ids.
            (\<forall>j<Key_Count s. key_id B (aKey s ! j) \<noteq> ids ! f) \<and>
            (\<forall>p<Keybind_Max s.
               if p < length ids \<and> length ids - 1 - f < p
               then aKeybind s' ! e ! p < Key_Count s \<and>
                    key_id B (aKey s ! (aKeybind s' ! e ! p)) = ids ! (length ids - 1 - p)
               else aKeybind s' ! e ! p = aKeybind s ! e ! p)"
    by blast
  have inr: "row' ! j < Key_Count s" if j: "j < aKeybindSize s ! e" for j
  proof (cases "j < length ids \<and> length ids - 1 - f < j")
    case True
    then show ?thesis using new by simp
  next
    case False
    have "j < Keybind_Max s" "aKeybind s ! e ! j < Key_Count s"
      using wf_size [OF assms(1) e] wf_idx [OF assms(1) e j] j by simp_all
    then show ?thesis using keep False by simp
  qed
  have wf': "wf s'"
    unfolding s' using wf_row_update [OF assms(1) e len] inr by blast
  have frame: "aKeybindSize s' = aKeybindSize s" "aPrimaryKeyState s' = aPrimaryKeyState s"
    "aKey s' = aKey s" "aEventOccurred s' = aEventOccurred s"
    "aUsedAsModifier s' = aUsedAsModifier s"
    "\<forall>e'<Event_Count s. e' \<noteq> e \<longrightarrow> aKeybind s' ! e' = aKeybind s ! e'"
    by (simp_all add: s')
  from frame ex wf' show ?thesis by blast
qed

theorem assign_invalid_keeps_size_witness:
  "wf sampleState \<and>
   assign sampleButton 0 [20, 99] 2 sampleState = Inl (invalid_argument, samplePartial) \<and>
   aKeybindSize sampleState ! 0 = 2 \<and> aKeybindSize samplePartial = aKeybindSize sampleState \<and>
   aPrimaryKeyState samplePartial = aPrimaryKeyState sampleState \<and>
   aKeybind sampleState ! 0 = [1, 0, 0] \<and> aKeybind samplePartial ! 0 = [1, 1, 0] \<and>
   wf samplePartial"
proof -
  have a: "assign sampleButton 0 [20, 99] 2 sampleState = Inl (invalid_argument, samplePartial)"
    by code_simp
  have c: "aKeybindSize sampleState ! 0 = 2"
    "aKeybind sampleState ! 0 = [1, 0, 0]" "aKeybind samplePartial ! 0 = [1, 1, 0]"
    by code_simp+
  note T = assign_invalid_keeps_size [OF wf_sampleState a]
  have t: "aKeybindSize samplePartial = aKeybindSize sampleState"
    "aPrimaryKeyState samplePartial = aPrimaryKeyState sampleState" "wf samplePartial"
    using T by blast+
  from wf_sampleState a c t show ?thesis by blast
qed

section \<open>One polling cycle\<close>

lemma wf_sampleShared: "wf sampleShared"
  by code_simp

lemma wf_sampleHeld: "wf sampleHeld"
  by code_simp

lemma wf_sampleThree: "wf sampleThree"
  by code_simp

lemma wf_sampleThreeIdle: "wf sampleThreeIdle"
  by code_simp

lemma wf_sampleTie: "wf sampleTie"
  by code_simp

lemma wf_sampleReversed: "wf sampleReversed"
  by code_simp

subsection \<open>Sequence validation\<close>

lemma isValidSequence_loop_iff:
  "isValidSequence_loop B s e j \<longleftrightarrow>
     (\<forall>j'. j \<le> j' \<and> j' < aKeybindSize s ! e \<longrightarrow>
        key_state B (aKey s ! (aKeybind s ! e ! j')) AND (e_push B OR e_hold B OR e_delay B) \<noteq> 0 \<and>
        key_pushTime B (aKey s ! (aKeybind s ! e ! j'))
          \<le> key_pushTime B (aKey s ! (aKeybind s ! e ! (j' - 1)))) \<and>
     key_state B (aKey s ! (aKeybind s ! e ! 0)) \<noteq> e_none B"
proof (induction B s e j rule: isValidSequence_loop.induct)
  case (1 B s e j)
  let ?ok = "\<lambda>j'. key_state B (aKey s ! (aKeybind s ! e ! j')) AND (e_push B OR e_hold B OR e_delay B) \<noteq> 0 \<and>
        key_pushTime B (aKey s ! (aKeybind s ! e ! j'))
          \<le> key_pushTime B (aKey s ! (aKeybind s ! e ! (j' - 1)))"
  let ?prim = "key_state B (aKey s ! (aKeybind s ! e ! 0)) \<noteq> e_none B"
  show ?case
  proof (cases "j < aKeybindSize s ! e")
    case False
    then have "isValidSequence_loop B s e j = ?prim"
      by (subst isValidSequence_loop.simps) simp
    with False show ?thesis by auto
  next
    case True
    show ?thesis
    proof (cases "?ok j")
      case False
      then have "\<not> isValidSequence_loop B s e j"
        using True by (subst isValidSequence_loop.simps) auto
      moreover have "\<not> (\<forall>j'. j \<le> j' \<and> j' < aKeybindSize s ! e \<longrightarrow> ?ok j')"
        using True False by blast
      ultimately show ?thesis by blast
    next
      case ok: True
      then have eq: "isValidSequence_loop B s e j = isValidSequence_loop B s e (Suc j)"
        using True by (subst isValidSequence_loop.simps) auto
      have IH: "isValidSequence_loop B s e (Suc j) \<longleftrightarrow>
          (\<forall>j'. Suc j \<le> j' \<and> j' < aKeybindSize s ! e \<longrightarrow> ?ok j') \<and> ?prim"
        using "1.IH" True ok by simp
      have "(\<forall>j'. j \<le> j' \<and> j' < aKeybindSize s ! e \<longrightarrow> ?ok j') \<longleftrightarrow>
            (\<forall>j'. Suc j \<le> j' \<and> j' < aKeybindSize s ! e \<longrightarrow> ?ok j')"
        using ok by (metis Suc_leI le_neq_implies_less Suc_leD)
      then show ?thesis unfolding eq IH by simp
    qed
  qed
qed

lemma isValidSequence_iff:
  "isValidSequence B s e \<longleftrightarrow>
     (\<forall>j. 1 \<le> j \<and> j < aKeybindSize s ! e \<longrightarrow>
        key_state B (aKey s ! (aKeybind s ! e ! j)) AND (e_push B OR e_hold B OR e_delay B) \<noteq> 0 \<and>
        key_pushTime B (aKey s ! (aKeybind s ! e ! j))
          \<le> key_pushTime B (aKey s ! (aKeybind s ! e ! (j - 1)))) \<and>
     key_state B (aKey s ! (aKeybind s ! e ! 0)) \<noteq> e_none B"
  unfolding isValidSequence_def by (rule isValidSequence_loop_iff)

lemma isValidSequence_cong:
  assumes "aKey s' = aKey s" "aKeybind s' = aKeybind s" "aKeybindSize s' = aKeybindSize s"
  shows "isValidSequence B s' e = isValidSequence B s e"
  unfolding isValidSequence_iff assms ..

subsection \<open>Frames of the loops\<close>

lemma refresh_frame:
  "Key_Count (refresh B s n) = Key_Count s \<and> Event_Count (refresh B s n) = Event_Count s \<and>
   Keybind_Max (refresh B s n) = Keybind_Max s \<and> aKeybind (refresh B s n) = aKeybind s \<and>
   aKeybindSize (refresh B s n) = aKeybindSize s \<and>
   aPrimaryKeyState (refresh B s n) = aPrimaryKeyState s \<and>
   aEventOccurred (refresh B s n) = aEventOccurred s \<and>
   length (aKey (refresh B s n)) = length (aKey s) \<and>
   length (aUsedAsModifier (refresh B s n)) = length (aUsedAsModifier s)"
  by (induction n) (simp_all add: refresh_step_def Let_def)

lemma refresh_step_aKey:
  "aKey (refresh_step B i s) = (aKey s)[i := key_update B (aKey s ! i)]"
  by (simp add: refresh_step_def Let_def)

lemma refresh_step_flags:
  "aUsedAsModifier (refresh_step B i s) =
     (if key_state B ((aKey s)[i := key_update B (aKey s ! i)] ! i) = e_none B \<or>
         key_state B ((aKey s)[i := key_update B (aKey s ! i)] ! i) AND e_idle B \<noteq> 0
      then (aUsedAsModifier s)[i := False] else aUsedAsModifier s)"
  by (simp add: refresh_step_def Let_def)

lemma refresh_keys:
  "k < length (aKey s) \<Longrightarrow>
   aKey (refresh B s n) ! k = (if k < n then key_update B (aKey s ! k) else aKey s ! k)"
proof (induction n)
  case 0
  then show ?case by simp
next
  case (Suc n)
  have len: "k < length (aKey (refresh B s n))"
    using Suc.prems by (simp add: refresh_frame)
  have IH: "aKey (refresh B s n) ! k = (if k < n then key_update B (aKey s ! k) else aKey s ! k)"
    using Suc.IH [OF Suc.prems] .
  show ?case
  proof (cases "k = n")
    case True
    then show ?thesis
      using IH len by (simp add: refresh_step_aKey)
  next
    case False
    then have "aKey (refresh B s (Suc n)) ! k = aKey (refresh B s n) ! k"
      by (simp add: refresh_step_aKey)
    then show ?thesis using IH False by auto
  qed
qed

lemma refresh_flags:
  "k < length (aUsedAsModifier s) \<Longrightarrow> k < length (aKey s) \<Longrightarrow>
   aUsedAsModifier (refresh B s n) ! k =
     (if k < n \<and> (key_state B (key_update B (aKey s ! k)) = e_none B \<or>
                   key_state B (key_update B (aKey s ! k)) AND e_idle B \<noteq> 0)
      then False else aUsedAsModifier s ! k)"
proof (induction n)
  case 0
  then show ?case by simp
next
  case (Suc n)
  have len: "k < length (aKey (refresh B s n))" "k < length (aUsedAsModifier (refresh B s n))"
    using Suc.prems by (simp_all add: refresh_frame)
  have IH: "aUsedAsModifier (refresh B s n) ! k =
     (if k < n \<and> (key_state B (key_update B (aKey s ! k)) = e_none B \<or>
                   key_state B (key_update B (aKey s ! k)) AND e_idle B \<noteq> 0)
      then False else aUsedAsModifier s ! k)"
    using Suc.IH [OF Suc.prems] .
  show ?case
  proof (cases "k = n")
    case True
    have key: "aKey (refresh B s n) ! n = aKey s ! n"
      using Suc.prems True by (simp add: refresh_keys)
    have new: "(aKey (refresh B s n))[n := key_update B (aKey (refresh B s n) ! n)] ! n =
               key_update B (aKey s ! n)"
      using len True key by simp
    show ?thesis
      using IH len True unfolding refresh.simps refresh_step_flags new by simp
  next
    case False
    then have "aUsedAsModifier (refresh B s (Suc n)) ! k = aUsedAsModifier (refresh B s n) ! k"
      by (simp add: refresh_step_flags)
    then show ?thesis using IH False by auto
  qed
qed

lemma markModifiers_loop_length [simp]:
  "length (markModifiers_loop s e n) = length (aUsedAsModifier s)"
  by (induction n) simp_all

lemma markModifiers_loop_nth:
  "k < length (aUsedAsModifier s) \<Longrightarrow>
   markModifiers_loop s e n ! k \<longleftrightarrow>
     aUsedAsModifier s ! k \<or> (\<exists>j. 1 \<le> j \<and> j \<le> n \<and> aKeybind s ! e ! j = k)"
proof (induction n)
  case 0
  then show ?case by simp
next
  case (Suc n)
  show ?case
  proof (cases "aKeybind s ! e ! Suc n = k")
    case True
    then show ?thesis using Suc.prems by auto
  next
    case False
    have "(\<exists>j. 1 \<le> j \<and> j \<le> Suc n \<and> aKeybind s ! e ! j = k) \<longleftrightarrow>
          (\<exists>j. 1 \<le> j \<and> j \<le> n \<and> aKeybind s ! e ! j = k)"
      using False by (metis le_Suc_eq)
    then show ?thesis
      using Suc.IH [OF Suc.prems] False by simp
  qed
qed

lemma markModifiersAsUsed_nth:
  assumes "k < length (aUsedAsModifier s)"
  shows "aUsedAsModifier (markModifiersAsUsed s e) ! k \<longleftrightarrow>
     aUsedAsModifier s ! k \<or> (\<exists>j. 1 \<le> j \<and> j < aKeybindSize s ! e \<and> aKeybind s ! e ! j = k)"
proof -
  have "(\<exists>j. 1 \<le> j \<and> j \<le> aKeybindSize s ! e - 1 \<and> aKeybind s ! e ! j = k) \<longleftrightarrow>
        (\<exists>j. 1 \<le> j \<and> j < aKeybindSize s ! e \<and> aKeybind s ! e ! j = k)" (is "?L = ?R")
  proof
    assume ?L
    then obtain j where j: "1 \<le> j" "j \<le> aKeybindSize s ! e - 1" "aKeybind s ! e ! j = k"
      by blast
    then have "j < aKeybindSize s ! e" by arith
    with j show ?R by blast
  next
    assume ?R
    then obtain j where j: "1 \<le> j" "j < aKeybindSize s ! e" "aKeybind s ! e ! j = k"
      by blast
    then have "j \<le> aKeybindSize s ! e - 1" by arith
    with j show ?L by blast
  qed
  then show ?thesis
    using markModifiers_loop_nth [OF assms, of e "aKeybindSize s ! e - 1"]
    by (simp add: markModifiersAsUsed_def)
qed

lemma finalize_frame:
  "Key_Count (finalize B best s n) = Key_Count s \<and> Event_Count (finalize B best s n) = Event_Count s \<and>
   Keybind_Max (finalize B best s n) = Keybind_Max s \<and> aKey (finalize B best s n) = aKey s \<and>
   aKeybind (finalize B best s n) = aKeybind s \<and>
   aKeybindSize (finalize B best s n) = aKeybindSize s \<and>
   aPrimaryKeyState (finalize B best s n) = aPrimaryKeyState s \<and>
   length (aEventOccurred (finalize B best s n)) = length (aEventOccurred s) \<and>
   length (aUsedAsModifier (finalize B best s n)) = length (aUsedAsModifier s)"
  by (induction n) (simp_all add: finalize_step_def markModifiersAsUsed_def)

subsection \<open>The candidate table\<close>

lemma candidate_step_cases:
  "candidate_step B s i best = best \<or>
   (candidate_step B s i best = best[aKeybind s ! i ! 0 := Suc i] \<and>
    aKeybindSize s ! i \<noteq> 0 \<and> \<not> aUsedAsModifier s ! (aKeybind s ! i ! 0) \<and>
    isValidSequence B s i \<and>
    (best ! (aKeybind s ! i ! 0) \<noteq> 0 \<longrightarrow>
       aKeybindSize s ! (best ! (aKeybind s ! i ! 0) - 1) \<le> aKeybindSize s ! i))"
  by (simp add: candidate_step_def isEmptyKeybind_def isUsedAsModifier_def)

lemma candidates_length [simp]: "length (candidates B s n) = Key_Count s"
proof (induction n)
  case 0
  then show ?case by simp
next
  case (Suc n)
  from candidate_step_cases [of B s n "candidates B s n"] Suc show ?case
    by auto
qed

lemma candidates_inv:
  "p < Key_Count s \<Longrightarrow> candidates B s n ! p = Suc c \<Longrightarrow>
   c < n \<and> aKeybindSize s ! c \<noteq> 0 \<and> aKeybind s ! c ! 0 = p \<and>
   \<not> aUsedAsModifier s ! p \<and> isValidSequence B s c"
proof (induction n arbitrary: c)
  case 0
  then show ?case by simp
next
  case (Suc n)
  let ?best = "candidates B s n"
  let ?q = "aKeybind s ! n ! 0"
  from candidate_step_cases [of B s n ?best]
  show ?case
  proof (elim disjE conjE)
    assume "candidate_step B s n ?best = ?best"
    then have "?best ! p = Suc c" using Suc.prems(2) by simp
    from Suc.IH [OF Suc.prems(1) this] show ?thesis by simp
  next
    assume a: "candidate_step B s n ?best = ?best[?q := Suc n]"
      "aKeybindSize s ! n \<noteq> 0" "\<not> aUsedAsModifier s ! ?q" "isValidSequence B s n"
    show ?thesis
    proof (cases "p = ?q")
      case True
      then have "c = n"
        using Suc.prems a(1) by simp
      then show ?thesis using a True by simp
    next
      case False
      then have "?best ! p = Suc c"
        using Suc.prems(2) a(1) by simp
      from Suc.IH [OF Suc.prems(1) this] show ?thesis by simp
    qed
  qed
qed

subsection \<open>Finalization\<close>

lemma finalize_step_occurred:
  "aEventOccurred (finalize_step B best i s) =
     (if best ! i \<noteq> 0 \<and> aPrimaryKeyState s ! (best ! i - 1) AND key_state B (aKey s ! i) \<noteq> 0
      then (aEventOccurred s)[best ! i - 1 := True] else aEventOccurred s)"
  by (simp add: finalize_step_def markModifiersAsUsed_def)

lemma finalize_step_flags:
  "aUsedAsModifier (finalize_step B best i s) =
     (if best ! i \<noteq> 0 \<and> aPrimaryKeyState s ! (best ! i - 1) AND key_state B (aKey s ! i) \<noteq> 0
      then aUsedAsModifier (markModifiersAsUsed s (best ! i - 1))
      else aUsedAsModifier s)"
  by (simp add: finalize_step_def markModifiersAsUsed_def)

lemma finalize_occurred:
  "e < length (aEventOccurred s) \<Longrightarrow>
   aEventOccurred (finalize B best s n) ! e \<longleftrightarrow>
     aEventOccurred s ! e \<or>
     (\<exists>i<n. best ! i = Suc e \<and> aPrimaryKeyState s ! e AND key_state B (aKey s ! i) \<noteq> 0)"
proof (induction n)
  case 0
  then show ?case by simp
next
  case (Suc n)
  let ?t = "finalize B best s n"
  have fr: "aPrimaryKeyState ?t = aPrimaryKeyState s" "aKey ?t = aKey s"
    "e < length (aEventOccurred ?t)"
    using Suc.prems by (simp_all add: finalize_frame)
  have IH: "aEventOccurred ?t ! e \<longleftrightarrow>
     aEventOccurred s ! e \<or>
     (\<exists>i<n. best ! i = Suc e \<and> aPrimaryKeyState s ! e AND key_state B (aKey s ! i) \<noteq> 0)"
    using Suc.IH [OF Suc.prems] .
  have step: "aEventOccurred (finalize B best s (Suc n)) ! e \<longleftrightarrow>
      aEventOccurred ?t ! e \<or>
      (best ! n = Suc e \<and> aPrimaryKeyState s ! e AND key_state B (aKey s ! n) \<noteq> 0)"
  proof (cases "best ! n = Suc e")
    case True
    then show ?thesis
      using fr by (simp add: finalize_step_occurred)
  next
    case False
    then have "best ! n \<noteq> 0 \<Longrightarrow> best ! n - 1 \<noteq> e" by arith
    then show ?thesis
      using False fr by (simp add: finalize_step_occurred)
  qed
  show ?case
    unfolding step IH by (auto simp: less_Suc_eq)
qed

lemma finalize_flags:
  "k < length (aUsedAsModifier s) \<Longrightarrow>
   aUsedAsModifier (finalize B best s n) ! k \<longleftrightarrow>
     aUsedAsModifier s ! k \<or>
     (\<exists>i<n. best ! i \<noteq> 0 \<and>
        aPrimaryKeyState s ! (best ! i - 1) AND key_state B (aKey s ! i) \<noteq> 0 \<and>
        (\<exists>j. 1 \<le> j \<and> j < aKeybindSize s ! (best ! i - 1) \<and>
             aKeybind s ! (best ! i - 1) ! j = k))"
proof (induction n)
  case 0
  then show ?case by simp
next
  case (Suc n)
  let ?t = "finalize B best s n"
  let ?hit = "\<lambda>i. best ! i \<noteq> 0 \<and>
        aPrimaryKeyState s ! (best ! i - 1) AND key_state B (aKey s ! i) \<noteq> 0 \<and>
        (\<exists>j. 1 \<le> j \<and> j < aKeybindSize s ! (best ! i - 1) \<and>
             aKeybind s ! (best ! i - 1) ! j = k)"
  have fr: "aPrimaryKeyState ?t = aPrimaryKeyState s" "aKey ?t = aKey s"
    "aKeybind ?t = aKeybind s" "aKeybindSize ?t = aKeybindSize s"
    "k < length (aUsedAsModifier ?t)"
    using Suc.prems by (simp_all add: finalize_frame)
  have IH: "aUsedAsModifier ?t ! k \<longleftrightarrow> aUsedAsModifier s ! k \<or> (\<exists>i<n. ?hit i)"
    using Suc.IH [OF Suc.prems] .
  have step: "aUsedAsModifier (finalize B best s (Suc n)) ! k \<longleftrightarrow>
      aUsedAsModifier ?t ! k \<or> ?hit n"
  proof (cases "best ! n \<noteq> 0 \<and>
        aPrimaryKeyState s ! (best ! n - 1) AND key_state B (aKey s ! n) \<noteq> 0")
    case True
    then have "aUsedAsModifier (finalize B best s (Suc n)) =
        aUsedAsModifier (markModifiersAsUsed ?t (best ! n - 1))"
      unfolding finalize.simps finalize_step_flags fr(1,2) by simp
    then show ?thesis
      using True markModifiersAsUsed_nth [OF fr(5), of "best ! n - 1"]
      unfolding fr(3,4) by simp
  next
    case False
    then have "aUsedAsModifier (finalize B best s (Suc n)) = aUsedAsModifier ?t"
      unfolding finalize.simps finalize_step_flags fr(1,2) by auto
    then show ?thesis using False by auto
  qed
  show ?case
    unfolding step IH by (auto simp: less_Suc_eq)
qed

subsection \<open>One cycle\<close>

lemma update_eq:
  "update B s =
     finalize B (candidates B (refreshed B s) (Event_Count s)) (refreshed B s) (Key_Count s)"
  by (simp add: update_def searchKeybind_def refresh_frame)

lemma refreshed_frame:
  "Key_Count (refreshed B s) = Key_Count s" "Event_Count (refreshed B s) = Event_Count s"
  "Keybind_Max (refreshed B s) = Keybind_Max s" "aKeybind (refreshed B s) = aKeybind s"
  "aKeybindSize (refreshed B s) = aKeybindSize s"
  "aPrimaryKeyState (refreshed B s) = aPrimaryKeyState s"
  "aEventOccurred (refreshed B s) = replicate (length (aEventOccurred s)) False"
  "length (aKey (refreshed B s)) = length (aKey s)"
  "length (aUsedAsModifier (refreshed B s)) = length (aUsedAsModifier s)"
  by (simp_all add: refresh_frame fill_def map_replicate_const)

lemma refreshed_key:
  "wf s \<Longrightarrow> k < Key_Count s \<Longrightarrow> aKey (refreshed B s) ! k = key_update B (aKey s ! k)"
  by (simp add: refresh_keys wf_iff)

lemma refreshed_flag:
  "wf s \<Longrightarrow> k < Key_Count s \<Longrightarrow>
   aUsedAsModifier (refreshed B s) ! k \<longleftrightarrow>
     aUsedAsModifier s ! k \<and> \<not> neutral B (aKey (refreshed B s) ! k)"
  by (simp add: refresh_flags refresh_keys wf_iff)

lemma update_frame:
  "Key_Count (update B s) = Key_Count s" "Event_Count (update B s) = Event_Count s"
  "Keybind_Max (update B s) = Keybind_Max s" "aKeybind (update B s) = aKeybind s"
  "aKeybindSize (update B s) = aKeybindSize s"
  "aPrimaryKeyState (update B s) = aPrimaryKeyState s"
  "aKey (update B s) = aKey (refreshed B s)"
  "length (aEventOccurred (update B s)) = length (aEventOccurred s)"
  "length (aUsedAsModifier (update B s)) = length (aUsedAsModifier s)"
  unfolding update_eq by (simp_all add: finalize_frame refreshed_frame)

lemma wf_update: "wf s \<Longrightarrow> wf (update B s)"
  unfolding wf_iff update_frame by (simp add: refreshed_frame)

lemma isValidSequence_update:
  "isValidSequence B (refreshed B s) e = isValidSequence B (update B s) e"
  by (rule isValidSequence_cong) (simp_all add: update_frame refreshed_frame)

lemma isEvent_update_iff:
  assumes "wf s"
  shows "isEvent (update B s) e \<longleftrightarrow>
     e < Event_Count s \<and>
     (\<exists>i<Key_Count s. candidates B (refreshed B s) (Event_Count s) ! i = Suc e \<and>
        aPrimaryKeyState s ! e AND key_state B (aKey (update B s) ! i) \<noteq> 0)"
proof (cases "e < Event_Count s")
  case False
  then show ?thesis by (simp add: isEvent_def update_frame)
next
  case True
  then have len: "e < length (aEventOccurred (refreshed B s))"
    using assms by (simp add: refreshed_frame wf_iff)
  have clean: "\<not> aEventOccurred (refreshed B s) ! e"
    using True assms by (simp add: refreshed_frame wf_iff)
  show ?thesis
    using True clean finalize_occurred [OF len, of B _ "Key_Count s"]
    unfolding isEvent_def update_frame(2) update_frame(7)
    by (simp add: update_eq refreshed_frame)
qed

lemma fired_props:
  assumes "wf s" "isEvent (update B s) e"
  shows "e < Event_Count s \<and> aKeybindSize s ! e \<noteq> 0 \<and> aKeybind s ! e ! 0 < Key_Count s \<and>
         candidates B (refreshed B s) (Event_Count s) ! (aKeybind s ! e ! 0) = Suc e \<and>
         \<not> aUsedAsModifier (refreshed B s) ! (aKeybind s ! e ! 0) \<and>
         isValidSequence B (update B s) e \<and>
         aPrimaryKeyState s ! e AND key_state B (aKey (update B s) ! (aKeybind s ! e ! 0)) \<noteq> 0"
proof -
  from isEvent_update_iff [OF assms(1)] assms(2) obtain i where
    e: "e < Event_Count s" and i: "i < Key_Count s" and
    c: "candidates B (refreshed B s) (Event_Count s) ! i = Suc e" and
    sat: "aPrimaryKeyState s ! e AND key_state B (aKey (update B s) ! i) \<noteq> 0"
    by blast
  have i': "i < Key_Count (refreshed B s)" using i by (simp add: refreshed_frame)
  from candidates_inv [OF i' c]
  have "aKeybindSize s ! e \<noteq> 0" "aKeybind s ! e ! 0 = i"
    "\<not> aUsedAsModifier (refreshed B s) ! i" "isValidSequence B (refreshed B s) e"
    by (simp_all add: refreshed_frame)
  with e i c sat show ?thesis
    by (simp add: isValidSequence_update)
qed

lemma flags_update_iff:
  assumes "wf s" "k < Key_Count s"
  shows "aUsedAsModifier (update B s) ! k \<longleftrightarrow>
     (aUsedAsModifier s ! k \<and> \<not> neutral B (aKey (update B s) ! k)) \<or>
     (\<exists>e<Event_Count s. isEvent (update B s) e \<and>
        (\<exists>j. 1 \<le> j \<and> j < aKeybindSize s ! e \<and> aKeybind s ! e ! j = k))"
proof -
  let ?r = "refreshed B s"
  let ?c = "candidates B ?r (Event_Count s)"
  let ?mod = "\<lambda>e. \<exists>j. 1 \<le> j \<and> j < aKeybindSize s ! e \<and> aKeybind s ! e ! j = k"
  let ?hit = "\<lambda>i. ?c ! i \<noteq> 0 \<and>
        aPrimaryKeyState s ! (?c ! i - 1) AND key_state B (aKey ?r ! i) \<noteq> 0 \<and> ?mod (?c ! i - 1)"
  have len: "k < length (aUsedAsModifier ?r)"
    using assms by (simp add: refreshed_frame wf_iff)
  have fin: "aUsedAsModifier (update B s) ! k \<longleftrightarrow>
      aUsedAsModifier ?r ! k \<or> (\<exists>i<Key_Count s. ?hit i)"
    using finalize_flags [OF len, of B ?c "Key_Count s"]
    by (simp add: update_eq refreshed_frame)
  have "(\<exists>i<Key_Count s. ?hit i) \<longleftrightarrow> (\<exists>e<Event_Count s. isEvent (update B s) e \<and> ?mod e)"
    (is "?L = ?R")
  proof
    assume ?L
    then obtain i where i: "i < Key_Count s" and h: "?hit i" by blast
    then obtain e where e: "?c ! i = Suc e" by (cases "?c ! i") auto
    have i': "i < Key_Count ?r" using i by (simp add: refreshed_frame)
    from candidates_inv [OF i' e] have "e < Event_Count s" by simp
    moreover have "isEvent (update B s) e"
      unfolding isEvent_update_iff [OF assms(1)] update_frame(7)
      using \<open>e < Event_Count s\<close> i e h by auto
    moreover have "?mod e" using h e by simp
    ultimately show ?R by blast
  next
    assume ?R
    then obtain e where e: "e < Event_Count s" "isEvent (update B s) e" "?mod e" by blast
    from e(2) obtain i where i: "i < Key_Count s" "?c ! i = Suc e"
      "aPrimaryKeyState s ! e AND key_state B (aKey ?r ! i) \<noteq> 0"
      unfolding isEvent_update_iff [OF assms(1)] update_frame(7) by blast
    then have "?hit i" using e(3) by simp
    with i(1) show ?L by blast
  qed
  then show ?thesis
    unfolding fin update_frame(7) refreshed_flag [OF assms] by simp
qed

subsection \<open>Which definition holds the entry of a key\<close>

lemma candidate_step_guards:
  "candidate_step B s i best = best \<or>
   (candidate_step B s i best = best[aKeybind s ! i ! 0 := Suc i] \<and>
    isValidSequence B s i \<and>
    (best ! (aKeybind s ! i ! 0) \<noteq> 0 \<longrightarrow>
       aKeybindSize s ! (best ! (aKeybind s ! i ! 0) - 1) \<le> aKeybindSize s ! i \<and>
       (aKeybindSize s ! i = aKeybindSize s ! (best ! (aKeybind s ! i ! 0) - 1) \<longrightarrow>
          aPrimaryKeyState s ! i AND key_state B (aKey s ! (aKeybind s ! i ! 0)) \<noteq> 0)))"
  by (auto simp: candidate_step_def isEmptyKeybind_def isUsedAsModifier_def)

text \<open>An accepted definition on an unflagged key bounds the entry of its key from below.\<close>

lemma candidates_bound:
  assumes "p < Key_Count s" "aKeybind s ! c ! 0 = p" "aKeybindSize s ! c \<noteq> 0"
    "\<not> aUsedAsModifier s ! p" "isValidSequence B s c"
  shows "c < n \<Longrightarrow>
         candidates B s n ! p \<noteq> 0 \<and>
         aKeybindSize s ! c \<le> aKeybindSize s ! (candidates B s n ! p - 1)"
proof (induction n)
  case 0
  then show ?case by simp
next
  case (Suc n)
  let ?best = "candidates B s n"
  have len: "p < length ?best" using assms(1) by simp
  show ?case
  proof (cases "c = n")
    case True
    show ?thesis
      using assms(2-5) len unfolding candidates.simps True [symmetric]
      by (auto simp: candidate_step_def isEmptyKeybind_def isUsedAsModifier_def)
  next
    case False
    then have "c < n" using Suc.prems by simp
    from Suc.IH [OF this] have IH: "?best ! p \<noteq> 0"
      "aKeybindSize s ! c \<le> aKeybindSize s ! (?best ! p - 1)" by simp_all
    from candidate_step_guards [of B s n ?best]
    show ?thesis
    proof (elim disjE conjE)
      assume "candidate_step B s n ?best = ?best"
      then show ?thesis using IH by simp
    next
      assume a: "candidate_step B s n ?best = ?best[aKeybind s ! n ! 0 := Suc n]"
        "?best ! (aKeybind s ! n ! 0) \<noteq> 0 \<longrightarrow>
           aKeybindSize s ! (?best ! (aKeybind s ! n ! 0) - 1) \<le> aKeybindSize s ! n \<and>
           (aKeybindSize s ! n = aKeybindSize s ! (?best ! (aKeybind s ! n ! 0) - 1) \<longrightarrow>
              aPrimaryKeyState s ! n AND key_state B (aKey s ! (aKeybind s ! n ! 0)) \<noteq> 0)"
      show ?thesis
      proof (cases "aKeybind s ! n ! 0 = p")
        case True
        then show ?thesis using a IH len by simp
      next
        case False
        then show ?thesis using a(1) IH by simp
      qed
    qed
  qed
qed

text \<open>The entry \<open>b + 1\<close> is written in iteration \<open>b\<close> only: once gone, it does not come back.\<close>

lemma candidates_not_back:
  assumes "p < Key_Count s" "b < m" "candidates B s m ! p \<noteq> Suc b"
  shows "m \<le> n \<Longrightarrow> candidates B s n ! p \<noteq> Suc b"
proof (induction n)
  case 0
  then show ?case using assms(2) by simp
next
  case (Suc n)
  show ?case
  proof (cases "m = Suc n")
    case True
    then show ?thesis using assms(3) by simp
  next
    case False
    then have mn: "m \<le> n" using Suc.prems by simp
    from Suc.IH [OF mn] have IH: "candidates B s n ! p \<noteq> Suc b" .
    have nb: "n \<noteq> b" using mn assms(2) by simp
    have len: "p < length (candidates B s n)" using assms(1) by simp
    from candidate_step_guards [of B s n "candidates B s n"]
    show ?thesis
    proof (elim disjE conjE)
      assume "candidate_step B s n (candidates B s n) = candidates B s n"
      then show ?thesis using IH by simp
    next
      assume a: "candidate_step B s n (candidates B s n) =
                 (candidates B s n)[aKeybind s ! n ! 0 := Suc n]"
      show ?thesis
      proof (cases "aKeybind s ! n ! 0 = p")
        case True
        then show ?thesis using a len nb by simp
      next
        case False
        then show ?thesis using a IH by simp
      qed
    qed
  qed
qed

text \<open>
  An accepted definition \<open>c\<close> after \<open>b\<close>, as long as \<open>b\<close> and satisfied by the state of
  the key, takes the entry from \<open>b\<close>.
\<close>

lemma candidates_taken:
  assumes "p < Key_Count s" "aKeybind s ! c ! 0 = p" "aKeybindSize s ! c \<noteq> 0"
    "\<not> aUsedAsModifier s ! p" "isValidSequence B s c"
    "aPrimaryKeyState s ! c AND key_state B (aKey s ! p) \<noteq> 0"
    "aKeybindSize s ! c = aKeybindSize s ! b" "b < c"
  shows "candidates B s (Suc c) ! p \<noteq> Suc b"
proof -
  let ?best = "candidates B s c"
  have len: "p < length ?best" using assms(1) by simp
  show ?thesis
  proof (cases "?best ! p \<noteq> 0 \<and> aKeybindSize s ! c < aKeybindSize s ! (?best ! p - 1)")
    case True
    then have "candidate_step B s c ?best = ?best"
      using assms(2,3) by (simp add: candidate_step_def isEmptyKeybind_def)
    moreover have "?best ! p \<noteq> Suc b"
      using True assms(7) by auto
    ultimately show ?thesis by simp
  next
    case False
    then have "candidate_step B s c ?best = ?best[p := Suc c]"
      using assms(2-6)
      by (auto simp: candidate_step_def isEmptyKeybind_def isUsedAsModifier_def)
    then show ?thesis using len assms(8) by simp
  qed
qed

text \<open>When no accepted definition stands in its way, \<open>b\<close> holds the entry at the end.\<close>

lemma candidates_wins:
  assumes "p < Key_Count s" "aKeybind s ! b ! 0 = p" "aKeybindSize s ! b \<noteq> 0"
    "\<not> aUsedAsModifier s ! p" "isValidSequence B s b"
    "aPrimaryKeyState s ! b AND key_state B (aKey s ! p) \<noteq> 0"
    "\<forall>c<Event_Count s. c \<noteq> b \<and> aKeybind s ! c ! 0 = p \<and> isValidSequence B s c \<longrightarrow>
       aKeybindSize s ! c \<le> aKeybindSize s ! b \<and>
       (b < c \<and> aKeybindSize s ! c = aKeybindSize s ! b \<longrightarrow>
          aPrimaryKeyState s ! c AND key_state B (aKey s ! p) = 0)"
  shows "b < n \<Longrightarrow> n \<le> Event_Count s \<Longrightarrow> candidates B s n ! p = Suc b"
proof (induction n)
  case 0
  then show ?case by simp
next
  case (Suc n)
  let ?best = "candidates B s n"
  have len: "p < length ?best" using assms(1) by simp
  have n: "n < Event_Count s" using Suc.prems by simp
  show ?case
  proof (cases "b = n")
    case True
    have small: "aKeybindSize s ! (?best ! p - 1) \<le> aKeybindSize s ! b" if "?best ! p \<noteq> 0"
    proof -
      from that obtain c where c: "?best ! p = Suc c" by (cases "?best ! p") auto
      from candidates_inv [OF assms(1) c]
      have "c < n" "aKeybind s ! c ! 0 = p" "isValidSequence B s c" by simp_all
      then have "aKeybindSize s ! c \<le> aKeybindSize s ! b"
        using assms(7) n True by simp
      then show ?thesis using c by simp
    qed
    have "candidate_step B s b ?best = ?best[p := Suc b]"
      using assms(2-6) small
      by (auto simp: candidate_step_def isEmptyKeybind_def isUsedAsModifier_def)
    then show ?thesis using len True by simp
  next
    case False
    then have bn: "b < n" using Suc.prems by simp
    from Suc.IH [OF this] n have IH: "?best ! p = Suc b" by simp
    from candidate_step_guards [of B s n ?best]
    show ?thesis
    proof (elim disjE conjE)
      assume "candidate_step B s n ?best = ?best"
      then show ?thesis using IH by simp
    next
      assume a: "candidate_step B s n ?best = ?best[aKeybind s ! n ! 0 := Suc n]"
        "?best ! (aKeybind s ! n ! 0) \<noteq> 0 \<longrightarrow>
           aKeybindSize s ! (?best ! (aKeybind s ! n ! 0) - 1) \<le> aKeybindSize s ! n \<and>
           (aKeybindSize s ! n = aKeybindSize s ! (?best ! (aKeybind s ! n ! 0) - 1) \<longrightarrow>
              aPrimaryKeyState s ! n AND key_state B (aKey s ! (aKeybind s ! n ! 0)) \<noteq> 0)"
        and v: "isValidSequence B s n"
      show ?thesis
      proof (cases "aKeybind s ! n ! 0 = p")
        case True
        have c: "aKeybindSize s ! n \<le> aKeybindSize s ! b"
          "aKeybindSize s ! n = aKeybindSize s ! b \<longrightarrow>
             aPrimaryKeyState s ! n AND key_state B (aKey s ! p) = 0"
          using assms(7) n False bn True v by simp_all
        have g: "aKeybindSize s ! b \<le> aKeybindSize s ! n"
          "aKeybindSize s ! n = aKeybindSize s ! b \<longrightarrow>
             aPrimaryKeyState s ! n AND key_state B (aKey s ! p) \<noteq> 0"
          using a(2) True IH by simp_all
        from c g show ?thesis by simp
      next
        case False
        then show ?thesis using a(1) IH by simp
      qed
    qed
  qed
qed

section \<open>Sequence validation and the tie-break\<close>

text \<open>
  C4. Sequence validation of a slot of stored size \<open>n\<close> accepts iff every position \<open>j\<close>
  from 1 to \<open>n - 1\<close> holds a key whose state has one of the bits push, hold, delay and
  whose press time is at most that of the key at position \<open>j - 1\<close>, and the primary key
  (position 0) is not in state none. Hence an event does not fire in a cycle in which
  a key of its chord was pressed strictly later than the key declared after it,
  whatever else holds.
\<close>

theorem isValidSequence_order:
  assumes "wf s"
  shows "(isValidSequence B s e \<longleftrightarrow>
            (\<forall>j. 1 \<le> j \<and> j < aKeybindSize s ! e \<longrightarrow>
               pressed B (aKey s ! (aKeybind s ! e ! j)) \<and>
               key_pushTime B (aKey s ! (aKeybind s ! e ! j))
                 \<le> key_pushTime B (aKey s ! (aKeybind s ! e ! (j - 1)))) \<and>
            key_state B (aKey s ! (aKeybind s ! e ! 0)) \<noteq> e_none B) \<and>
         ((\<exists>j. 1 \<le> j \<and> j < aKeybindSize s ! e \<and>
               key_pushTime B (aKey (update B s) ! (aKeybind s ! e ! (j - 1)))
                 < key_pushTime B (aKey (update B s) ! (aKeybind s ! e ! j))) \<longrightarrow>
          \<not> isEvent (update B s) e)"
proof (intro conjI impI)
  show "isValidSequence B s e \<longleftrightarrow>
            (\<forall>j. 1 \<le> j \<and> j < aKeybindSize s ! e \<longrightarrow>
               pressed B (aKey s ! (aKeybind s ! e ! j)) \<and>
               key_pushTime B (aKey s ! (aKeybind s ! e ! j))
                 \<le> key_pushTime B (aKey s ! (aKeybind s ! e ! (j - 1)))) \<and>
            key_state B (aKey s ! (aKeybind s ! e ! 0)) \<noteq> e_none B"
    by (rule isValidSequence_iff)
next
  assume "\<exists>j. 1 \<le> j \<and> j < aKeybindSize s ! e \<and>
               key_pushTime B (aKey (update B s) ! (aKeybind s ! e ! (j - 1)))
                 < key_pushTime B (aKey (update B s) ! (aKeybind s ! e ! j))"
  then obtain j where j: "1 \<le> j" "j < aKeybindSize s ! e"
    "key_pushTime B (aKey (update B s) ! (aKeybind s ! e ! (j - 1)))
       < key_pushTime B (aKey (update B s) ! (aKeybind s ! e ! j))"
    by blast
  show "\<not> isEvent (update B s) e"
  proof
    assume "isEvent (update B s) e"
    from fired_props [OF assms this] have "isValidSequence B (update B s) e" by simp
    then have "key_pushTime B (aKey (update B s) ! (aKeybind s ! e ! j))
                 \<le> key_pushTime B (aKey (update B s) ! (aKeybind s ! e ! (j - 1)))"
      unfolding isValidSequence_iff update_frame(4,5) using j(1,2) by blast
    with j(3) show False by simp
  qed
qed

theorem isValidSequence_order_witness:
  "wf sampleReversed \<and> (1::nat) \<le> 1 \<and> 1 < aKeybindSize sampleReversed ! 0 \<and>
   pressed sampleButton (aKey (update sampleButton sampleReversed) ! (aKeybind sampleReversed ! 0 ! 0)) \<and>
   pressed sampleButton (aKey (update sampleButton sampleReversed) ! (aKeybind sampleReversed ! 0 ! 1)) \<and>
   key_pushTime sampleButton (aKey (update sampleButton sampleReversed) ! (aKeybind sampleReversed ! 0 ! (1 - 1)))
     < key_pushTime sampleButton (aKey (update sampleButton sampleReversed) ! (aKeybind sampleReversed ! 0 ! 1)) \<and>
   aPrimaryKeyState sampleReversed ! 0 AND
     key_state sampleButton (aKey (update sampleButton sampleReversed) ! (aKeybind sampleReversed ! 0 ! 0)) \<noteq> 0 \<and>
   \<not> isValidSequence sampleButton sampleReversed 0 \<and>
   \<not> isEvent (update sampleButton sampleReversed) 0"
proof -
  let ?u = "update sampleButton sampleReversed"
  have h: "(1::nat) \<le> 1 \<and> 1 < aKeybindSize sampleReversed ! 0 \<and>
     key_pushTime sampleButton (aKey ?u ! (aKeybind sampleReversed ! 0 ! (1 - 1)))
     < key_pushTime sampleButton (aKey ?u ! (aKeybind sampleReversed ! 0 ! 1))"
    by code_simp
  have c: "pressed sampleButton (aKey ?u ! (aKeybind sampleReversed ! 0 ! 0))"
    "pressed sampleButton (aKey ?u ! (aKeybind sampleReversed ! 0 ! 1))"
    "aPrimaryKeyState sampleReversed ! 0 AND
     key_state sampleButton (aKey ?u ! (aKeybind sampleReversed ! 0 ! 0)) \<noteq> 0"
    "\<not> isValidSequence sampleButton sampleReversed 0"
    by code_simp+
  note T = isValidSequence_order [OF wf_sampleReversed, of sampleButton 0]
  have "\<not> isEvent ?u 0"
    using T [THEN conjunct2] h by blast
  then show ?thesis
    using wf_sampleReversed h c by blast
qed

text \<open>
  C3. In the candidate search, let definition \<open>i\<close> come up while the table holds a
  definition \<open>c\<close> of the same chord length for \<open>i\<close>'s primary key \<open>p\<close>. Then \<open>c\<close> was
  registered earlier, and the table after the iteration is the table before it unless
  the state of \<open>p\<close> satisfies \<open>i\<close>'s required-state mask and \<open>i\<close> passes the exclusivity
  and the sequence check, in which case \<open>i\<close> is the new entry for \<open>p\<close>.
\<close>

theorem equal_length_tie_break:
  assumes "wf s" "i < Event_Count s" "aKeybindSize s ! i \<noteq> 0"
    "candidates B s i ! (aKeybind s ! i ! 0) = Suc c"
    "aKeybindSize s ! i = aKeybindSize s ! c"
  shows "c < i \<and>
         candidates B s (Suc i) =
           (if aPrimaryKeyState s ! i AND key_state B (aKey s ! (aKeybind s ! i ! 0)) \<noteq> 0 \<and>
               \<not> isUsedAsModifier s (aKeybind s ! i ! 0) \<and> isValidSequence B s i
            then (candidates B s i)[aKeybind s ! i ! 0 := Suc i]
            else candidates B s i) \<and>
         (aPrimaryKeyState s ! i AND key_state B (aKey s ! (aKeybind s ! i ! 0)) \<noteq> 0 \<and>
          \<not> isUsedAsModifier s (aKeybind s ! i ! 0) \<and> isValidSequence B s i \<longrightarrow>
            candidates B s (Suc i) ! (aKeybind s ! i ! 0) = Suc i)"
proof -
  let ?p = "aKeybind s ! i ! 0"
  have p: "?p < Key_Count s"
    using wf_idx [OF assms(1,2), of 0] assms(3) by simp
  from candidates_inv [OF p assms(4)] have c: "c < i" by simp
  have step: "candidates B s (Suc i) =
           (if aPrimaryKeyState s ! i AND key_state B (aKey s ! ?p) \<noteq> 0 \<and>
               \<not> isUsedAsModifier s ?p \<and> isValidSequence B s i
            then (candidates B s i)[?p := Suc i]
            else candidates B s i)"
    using assms(3,4,5) by (simp add: candidate_step_def isEmptyKeybind_def)
  have "candidates B s (Suc i) ! ?p = Suc i"
    if "aPrimaryKeyState s ! i AND key_state B (aKey s ! ?p) \<noteq> 0 \<and>
          \<not> isUsedAsModifier s ?p \<and> isValidSequence B s i"
    unfolding step using that p by simp
  with c step show ?thesis by blast
qed

theorem equal_length_tie_break_witness:
  "wf sampleTie \<and> 1 < Event_Count sampleTie \<and> aKeybindSize sampleTie ! 1 \<noteq> 0 \<and>
   candidates sampleButton sampleTie 1 ! (aKeybind sampleTie ! 1 ! 0) = Suc 0 \<and>
   aKeybindSize sampleTie ! 1 = aKeybindSize sampleTie ! 0 \<and>
   aPrimaryKeyState sampleTie ! 1 AND
     key_state sampleButton (aKey sampleTie ! (aKeybind sampleTie ! 1 ! 0)) \<noteq> 0 \<and>
   \<not> isUsedAsModifier sampleTie (aKeybind sampleTie ! 1 ! 0) \<and>
   isValidSequence sampleButton sampleTie 1 \<and>
   candidates sampleButton sampleTie (Suc 1) ! (aKeybind sampleTie ! 1 ! 0) = Suc 1"
proof -
  have h: "1 < Event_Count sampleTie" "aKeybindSize sampleTie ! 1 \<noteq> 0"
    "candidates sampleButton sampleTie 1 ! (aKeybind sampleTie ! 1 ! 0) = Suc 0"
    "aKeybindSize sampleTie ! 1 = aKeybindSize sampleTie ! 0"
    by code_simp+
  have c: "aPrimaryKeyState sampleTie ! 1 AND
     key_state sampleButton (aKey sampleTie ! (aKeybind sampleTie ! 1 ! 0)) \<noteq> 0"
    "\<not> isUsedAsModifier sampleTie (aKeybind sampleTie ! 1 ! 0)"
    "isValidSequence sampleButton sampleTie 1"
    by code_simp+
  note T = equal_length_tie_break [OF wf_sampleTie h]
  have "candidates sampleButton sampleTie (Suc 1) ! (aKeybind sampleTie ! 1 ! 0) = Suc 1"
    using T [THEN conjunct2, THEN conjunct2] c by blast
  then show ?thesis
    using wf_sampleTie h c by blast
qed

section \<open>Longest match\<close>

text \<open>
  C2 as stated fails: in \<open>sampleThree\<close> the definitions 0 and 1 share the primary key,
  all keys are pressed and in order and the primary key satisfies both required
  states, yet the longer of the two, event 1, does not fire: event 2 is longer still.
\<close>

theorem longest_match_counterexample:
  "wf sampleThree \<and>
   aKeybindSize sampleThree ! 0 = 1 \<and> aKeybindSize sampleThree ! 1 = 2 \<and>
   aKeybind sampleThree ! 0 ! 0 = aKeybind sampleThree ! 1 ! 0 \<and>
   pressed sampleButton (aKey (update sampleButton sampleThree) ! 0) \<and>
   pressed sampleButton (aKey (update sampleButton sampleThree) ! 1) \<and>
   pressed sampleButton (aKey (update sampleButton sampleThree) ! 2) \<and>
   isValidSequence sampleButton (update sampleButton sampleThree) 0 \<and>
   isValidSequence sampleButton (update sampleButton sampleThree) 1 \<and>
   aPrimaryKeyState sampleThree ! 0 AND
     key_state sampleButton (aKey (update sampleButton sampleThree) ! (aKeybind sampleThree ! 0 ! 0)) \<noteq> 0 \<and>
   aPrimaryKeyState sampleThree ! 1 AND
     key_state sampleButton (aKey (update sampleButton sampleThree) ! (aKeybind sampleThree ! 1 ! 0)) \<noteq> 0 \<and>
   \<not> isEvent (update sampleButton sampleThree) 1 \<and>
   isEvent (update sampleButton sampleThree) 2"
  by code_simp

text \<open>
  C2, amended. Let \<open>a\<close> and \<open>b\<close> be definitions with the same primary key, \<open>b\<close> the longer,
  and after the refresh let every modifier key of \<open>b\<close> be pressed and in order, the
  primary key not in state none and its state satisfy \<open>b\<close>'s required state. Then the
  event of \<open>a\<close> does not fire, and the event of \<open>b\<close> fires if and only if
  \<^item> the primary key does not carry the used-as-modifier flag into chord resolution
    (the flag was clear, or the refresh cleared it), and
  \<^item> every other definition with this primary key that passes sequence validation is
    at most as long as \<open>b\<close> and, when it is as long as \<open>b\<close> and registered after \<open>b\<close>, is
    not satisfied by the state of the primary key.
  In the scenario of section 8 event 0 fires, event 1 does not, and the flag of key 10
  (index 0) is set.
\<close>

theorem longest_match:
  assumes "wf s" "a < Event_Count s" "b < Event_Count s"
    "aKeybindSize s ! a < aKeybindSize s ! b"
    "aKeybind s ! a ! 0 = aKeybind s ! b ! 0"
    "\<forall>j. 1 \<le> j \<and> j < aKeybindSize s ! b \<longrightarrow>
       pressed B (aKey (update B s) ! (aKeybind s ! b ! j)) \<and>
       key_pushTime B (aKey (update B s) ! (aKeybind s ! b ! j))
         \<le> key_pushTime B (aKey (update B s) ! (aKeybind s ! b ! (j - 1)))"
    "key_state B (aKey (update B s) ! (aKeybind s ! b ! 0)) \<noteq> e_none B"
    "aPrimaryKeyState s ! b AND key_state B (aKey (update B s) ! (aKeybind s ! b ! 0)) \<noteq> 0"
  shows "\<not> isEvent (update B s) a \<and>
         (isEvent (update B s) b \<longleftrightarrow>
            \<not> (aUsedAsModifier s ! (aKeybind s ! b ! 0) \<and>
               \<not> neutral B (aKey (update B s) ! (aKeybind s ! b ! 0))) \<and>
            (\<forall>c<Event_Count s.
               c \<noteq> b \<and> aKeybind s ! c ! 0 = aKeybind s ! b ! 0 \<and>
               isValidSequence B (update B s) c \<longrightarrow>
                 aKeybindSize s ! c \<le> aKeybindSize s ! b \<and>
                 (b < c \<and> aKeybindSize s ! c = aKeybindSize s ! b \<longrightarrow>
                    aPrimaryKeyState s ! c AND
                      key_state B (aKey (update B s) ! (aKeybind s ! b ! 0)) = 0))) \<and>
         isEvent (update sampleButton sampleState) 0 \<and>
         \<not> isEvent (update sampleButton sampleState) 1 \<and>
         aUsedAsModifier (update sampleButton sampleState) ! 0"
proof -
  let ?r = "refreshed B s"
  let ?u = "update B s"
  let ?p = "aKeybind s ! b ! 0"
  let ?M = "Event_Count s"
  let ?free = "\<not> (aUsedAsModifier s ! ?p \<and> \<not> neutral B (aKey ?u ! ?p))"
  let ?clear = "\<forall>c<?M. c \<noteq> b \<and> aKeybind s ! c ! 0 = ?p \<and> isValidSequence B ?u c \<longrightarrow>
                 aKeybindSize s ! c \<le> aKeybindSize s ! b \<and>
                 (b < c \<and> aKeybindSize s ! c = aKeybindSize s ! b \<longrightarrow>
                    aPrimaryKeyState s ! c AND key_state B (aKey ?u ! ?p) = 0)"
  have size: "aKeybindSize s ! b \<noteq> 0" using assms(4) by simp
  have p: "?p < Key_Count s"
    using wf_idx [OF assms(1,3), of 0] size by simp
  have p': "?p < Key_Count ?r" "aKeybind ?r ! b ! 0 = ?p" "aKeybindSize ?r ! b \<noteq> 0"
    using p size by (simp_all add: refreshed_frame)
  have fr: "aKeybind ?r = aKeybind s" "aKeybindSize ?r = aKeybindSize s"
    "aPrimaryKeyState ?r = aPrimaryKeyState s" "Event_Count ?r = ?M" "aKey ?r = aKey ?u"
    by (simp_all add: refreshed_frame update_frame)
  have flag: "aUsedAsModifier ?r ! ?p \<longleftrightarrow> \<not> ?free"
    using refreshed_flag [OF assms(1) p, of B] unfolding fr(5) by blast
  have "isValidSequence B ?u b"
    unfolding isValidSequence_iff update_frame(4,5)
    by (intro conjI assms(6) assms(7))
  then have valid: "isValidSequence B ?r b"
    by (simp only: isValidSequence_update)
  have sat: "aPrimaryKeyState ?r ! b AND key_state B (aKey ?r ! ?p) \<noteq> 0"
    using assms(8) unfolding fr by simp
  have fired_b: "isEvent ?u b \<longleftrightarrow> candidates B ?r ?M ! ?p = Suc b"
  proof
    assume "isEvent ?u b"
    from fired_props [OF assms(1) this] show "candidates B ?r ?M ! ?p = Suc b" by simp
  next
    assume "candidates B ?r ?M ! ?p = Suc b"
    then show "isEvent ?u b"
      unfolding isEvent_update_iff [OF assms(1)] using assms(3,8) p by blast
  qed
  have short: "\<not> isEvent ?u a"
  proof
    assume "isEvent ?u a"
    from fired_props [OF assms(1) this]
    have c: "candidates B ?r ?M ! ?p = Suc a"
      and unused: "\<not> aUsedAsModifier ?r ! ?p"
      using assms(5) by simp_all
    from candidates_bound [OF p' unused valid assms(3)]
    have "aKeybindSize s ! b \<le> aKeybindSize s ! a"
      using c unfolding fr by simp
    with assms(4) show False by simp
  qed
  have only_if: "?free \<and> ?clear" if best: "candidates B ?r ?M ! ?p = Suc b"
  proof (intro conjI allI impI)
    have pr: "?p < Key_Count ?r" by (rule p'(1))
    from candidates_inv [OF pr best] have unused: "\<not> aUsedAsModifier ?r ! ?p" by simp
    then show "?free" using flag by blast
    fix c
    assume c: "c < ?M" and h: "c \<noteq> b \<and> aKeybind s ! c ! 0 = ?p \<and> isValidSequence B ?u c"
    have vc: "isValidSequence B ?r c" using h by (simp only: isValidSequence_update)
    have pc: "aKeybind ?r ! c ! 0 = ?p" using h unfolding fr by simp
    show "aKeybindSize s ! c \<le> aKeybindSize s ! b"
    proof (cases "aKeybindSize s ! c = 0")
      case True
      then show ?thesis by simp
    next
      case False
      then have nz: "aKeybindSize ?r ! c \<noteq> 0" unfolding fr .
      from candidates_bound [OF pr pc nz unused vc c]
      show ?thesis using best unfolding fr by simp
    qed
    assume eq: "b < c \<and> aKeybindSize s ! c = aKeybindSize s ! b"
    show "aPrimaryKeyState s ! c AND key_state B (aKey ?u ! ?p) = 0"
    proof (rule ccontr)
      assume "aPrimaryKeyState s ! c AND key_state B (aKey ?u ! ?p) \<noteq> 0"
      then have satc: "aPrimaryKeyState ?r ! c AND key_state B (aKey ?r ! ?p) \<noteq> 0"
        unfolding fr .
      have nz: "aKeybindSize ?r ! c \<noteq> 0" using eq size unfolding fr by simp
      have eq': "aKeybindSize ?r ! c = aKeybindSize ?r ! b" "b < c"
        using eq unfolding fr by simp_all
      have "candidates B ?r (Suc c) ! ?p \<noteq> Suc b"
        by (rule candidates_taken [OF pr pc nz unused vc satc eq'])
      from candidates_not_back [OF pr _ this, of ?M] c eq
      have "candidates B ?r ?M ! ?p \<noteq> Suc b" by simp
      with best show False by simp
    qed
  qed
  have "if": "candidates B ?r ?M ! ?p = Suc b" if free: "?free" and clear: "?clear"
  proof -
    have unused: "\<not> aUsedAsModifier ?r ! ?p" using flag free by blast
    have clear': "\<forall>c<Event_Count ?r.
        c \<noteq> b \<and> aKeybind ?r ! c ! 0 = ?p \<and> isValidSequence B ?r c \<longrightarrow>
        aKeybindSize ?r ! c \<le> aKeybindSize ?r ! b \<and>
        (b < c \<and> aKeybindSize ?r ! c = aKeybindSize ?r ! b \<longrightarrow>
           aPrimaryKeyState ?r ! c AND key_state B (aKey ?r ! ?p) = 0)"
      using clear unfolding fr isValidSequence_update .
    have le: "?M \<le> Event_Count ?r" unfolding fr by simp
    show ?thesis
      by (rule candidates_wins [OF p' unused valid sat clear' assms(3) le])
  qed
  have long: "isEvent ?u b \<longleftrightarrow> ?free \<and> ?clear"
    unfolding fired_b using only_if "if" by blast
  have sample: "isEvent (update sampleButton sampleState) 0"
    "\<not> isEvent (update sampleButton sampleState) 1"
    "aUsedAsModifier (update sampleButton sampleState) ! 0"
    by code_simp+
  from short long sample show ?thesis by blast
qed

theorem longest_match_witness:
  "wf sampleState \<and> 1 < Event_Count sampleState \<and> 0 < Event_Count sampleState \<and>
   aKeybindSize sampleState ! 1 < aKeybindSize sampleState ! 0 \<and>
   aKeybind sampleState ! 1 ! 0 = aKeybind sampleState ! 0 ! 0 \<and>
   isValidSequence sampleButton (update sampleButton sampleState) 0 \<and>
   aPrimaryKeyState sampleState ! 0 AND
     key_state sampleButton (aKey (update sampleButton sampleState) ! (aKeybind sampleState ! 0 ! 0)) \<noteq> 0 \<and>
   \<not> aUsedAsModifier sampleState ! (aKeybind sampleState ! 0 ! 0) \<and>
   \<not> isEvent (update sampleButton sampleState) 1 \<and>
   isEvent (update sampleButton sampleState) 0 \<and>
   wf sampleThreeIdle \<and>
   aKeybindSize sampleThreeIdle ! 1 < aKeybindSize sampleThreeIdle ! 2 \<and>
   aKeybind sampleThreeIdle ! 2 ! 0 = aKeybind sampleThreeIdle ! 1 ! 0 \<and>
   isValidSequence sampleButton (update sampleButton sampleThreeIdle) 1 \<and>
   \<not> isValidSequence sampleButton (update sampleButton sampleThreeIdle) 2 \<and>
   \<not> isEvent (update sampleButton sampleThreeIdle) 0 \<and>
   isEvent (update sampleButton sampleThreeIdle) 1"
proof -
  let ?u = "update sampleButton sampleState"
  have h: "1 < Event_Count sampleState" "0 < Event_Count sampleState"
    "aKeybindSize sampleState ! 1 < aKeybindSize sampleState ! 0"
    "aKeybind sampleState ! 1 ! 0 = aKeybind sampleState ! 0 ! 0"
    by code_simp+
  have v: "isValidSequence sampleButton ?u 0"
    by code_simp
  have v': "\<forall>j. 1 \<le> j \<and> j < aKeybindSize sampleState ! 0 \<longrightarrow>
       pressed sampleButton (aKey ?u ! (aKeybind sampleState ! 0 ! j)) \<and>
       key_pushTime sampleButton (aKey ?u ! (aKeybind sampleState ! 0 ! j))
         \<le> key_pushTime sampleButton (aKey ?u ! (aKeybind sampleState ! 0 ! (j - 1)))"
    "key_state sampleButton (aKey ?u ! (aKeybind sampleState ! 0 ! 0)) \<noteq> e_none sampleButton"
    using v unfolding isValidSequence_iff update_frame(4,5) by blast+
  have sat: "aPrimaryKeyState sampleState ! 0 AND
     key_state sampleButton (aKey ?u ! (aKeybind sampleState ! 0 ! 0)) \<noteq> 0"
    by code_simp
  have free: "\<not> aUsedAsModifier sampleState ! (aKeybind sampleState ! 0 ! 0)"
    by code_simp
  have ec: "Event_Count sampleState = Suc (Suc 0)"
    by code_simp
  have sz: "aKeybindSize sampleState ! Suc 0 \<le> aKeybindSize sampleState ! 0"
    "aKeybindSize sampleState ! Suc 0 \<noteq> aKeybindSize sampleState ! 0"
    by code_simp+
  have others: "\<forall>c<Event_Count sampleState.
      c \<noteq> 0 \<and> aKeybind sampleState ! c ! 0 = aKeybind sampleState ! 0 ! 0 \<and>
      isValidSequence sampleButton ?u c \<longrightarrow>
        aKeybindSize sampleState ! c \<le> aKeybindSize sampleState ! 0 \<and>
        (0 < c \<and> aKeybindSize sampleState ! c = aKeybindSize sampleState ! 0 \<longrightarrow>
           aPrimaryKeyState sampleState ! c AND
             key_state sampleButton (aKey ?u ! (aKeybind sampleState ! 0 ! 0)) = 0)"
    unfolding ec using sz by (simp add: All_less_Suc)
  note T = longest_match [OF wf_sampleState h v' sat]
  have n1: "\<not> isEvent ?u 1"
    using T [THEN conjunct1] .
  have f0: "isEvent ?u 0"
    using T [THEN conjunct2, THEN conjunct1] free others by blast

  let ?w = "update sampleButton sampleThreeIdle"
  have g: "0 < Event_Count sampleThreeIdle" "1 < Event_Count sampleThreeIdle"
    "aKeybindSize sampleThreeIdle ! 0 < aKeybindSize sampleThreeIdle ! 1"
    "aKeybind sampleThreeIdle ! 0 ! 0 = aKeybind sampleThreeIdle ! 1 ! 0"
    by code_simp+
  have k: "aKeybindSize sampleThreeIdle ! 1 < aKeybindSize sampleThreeIdle ! 2"
    "aKeybind sampleThreeIdle ! 2 ! 0 = aKeybind sampleThreeIdle ! 1 ! 0"
    by code_simp+
  have w: "isValidSequence sampleButton ?w 1"
    by code_simp
  have w2: "\<not> isValidSequence sampleButton ?w 2"
    by code_simp
  have w': "\<forall>j. 1 \<le> j \<and> j < aKeybindSize sampleThreeIdle ! 1 \<longrightarrow>
       pressed sampleButton (aKey ?w ! (aKeybind sampleThreeIdle ! 1 ! j)) \<and>
       key_pushTime sampleButton (aKey ?w ! (aKeybind sampleThreeIdle ! 1 ! j))
         \<le> key_pushTime sampleButton (aKey ?w ! (aKeybind sampleThreeIdle ! 1 ! (j - 1)))"
    "key_state sampleButton (aKey ?w ! (aKeybind sampleThreeIdle ! 1 ! 0)) \<noteq> e_none sampleButton"
    using w unfolding isValidSequence_iff update_frame(4,5) by blast+
  have sat1: "aPrimaryKeyState sampleThreeIdle ! 1 AND
     key_state sampleButton (aKey ?w ! (aKeybind sampleThreeIdle ! 1 ! 0)) \<noteq> 0"
    by code_simp
  have free1: "\<not> aUsedAsModifier sampleThreeIdle ! (aKeybind sampleThreeIdle ! 1 ! 0)"
    by code_simp
  have ec3: "Event_Count sampleThreeIdle = Suc (Suc (Suc 0))"
    by code_simp
  have sz3: "aKeybindSize sampleThreeIdle ! 0 \<le> aKeybindSize sampleThreeIdle ! Suc 0"
    "\<not> isValidSequence sampleButton ?w (Suc (Suc 0))"
    by code_simp+
  have others3: "\<forall>c<Event_Count sampleThreeIdle.
      c \<noteq> 1 \<and> aKeybind sampleThreeIdle ! c ! 0 = aKeybind sampleThreeIdle ! 1 ! 0 \<and>
      isValidSequence sampleButton ?w c \<longrightarrow>
        aKeybindSize sampleThreeIdle ! c \<le> aKeybindSize sampleThreeIdle ! 1 \<and>
        (1 < c \<and> aKeybindSize sampleThreeIdle ! c = aKeybindSize sampleThreeIdle ! 1 \<longrightarrow>
           aPrimaryKeyState sampleThreeIdle ! c AND
             key_state sampleButton (aKey ?w ! (aKeybind sampleThreeIdle ! 1 ! 0)) = 0)"
    unfolding ec3 using sz3 by (simp add: All_less_Suc)
  note T3 = longest_match [OF wf_sampleThreeIdle g w' sat1]
  have n0: "\<not> isEvent ?w 0"
    using T3 [THEN conjunct1] .
  have f1: "isEvent ?w 1"
    using T3 [THEN conjunct2, THEN conjunct1] free1 others3 by blast
  show ?thesis
    using wf_sampleState h v sat free n1 f0 wf_sampleThreeIdle k w w2 n0 f1 by blast
qed

section \<open>The used-as-modifier flag\<close>

text \<open>
  C9 as stated fails: in the scenario of section 8 the flag of key 10 (index 0) is clear
  before \<open>update\<close>, the key is held, and the flag is set afterwards.
\<close>

theorem update_flag_counterexample:
  "wf sampleState \<and> \<not> aUsedAsModifier sampleState ! 0 \<and>
   \<not> neutral sampleButton (aKey (update sampleButton sampleState) ! 0) \<and>
   aUsedAsModifier (update sampleButton sampleState) ! 0"
  by code_simp

text \<open>
  C9, amended. For every key index, the refresh loop of \<open>update\<close> clears the
  used-as-modifier flag iff the refreshed state of the key is none or has the idle
  bit, and carries the flag of the previous cycle over in every other state. That is
  the flag chord resolution starts from; resolution then sets the flag of every
  modifier key of an event that fires in this cycle and clears none. So a set flag
  persists while the key stays active, and a clear one can become set.
\<close>

theorem update_flag_decay:
  assumes "wf s" "k < Key_Count s"
  shows "(aUsedAsModifier (refreshed B s) ! k \<longleftrightarrow>
            aUsedAsModifier s ! k \<and> \<not> neutral B (aKey (update B s) ! k)) \<and>
         (aUsedAsModifier (update B s) ! k \<longleftrightarrow>
            aUsedAsModifier (refreshed B s) ! k \<or>
            (\<exists>e<Event_Count s. isEvent (update B s) e \<and>
               (\<exists>j. 1 \<le> j \<and> j < aKeybindSize s ! e \<and> aKeybind s ! e ! j = k)))"
  using flags_update_iff [OF assms, of B] refreshed_flag [OF assms, of B]
  unfolding update_frame(7) by blast

theorem update_flag_decay_witness:
  "wf sampleHeld \<and> 2 < Key_Count sampleHeld \<and>
   aUsedAsModifier sampleHeld ! 0 \<and>
   \<not> neutral sampleButton (aKey (update sampleButton sampleHeld) ! 0) \<and>
   aUsedAsModifier (refreshed sampleButton sampleHeld) ! 0 \<and>
   aUsedAsModifier (update sampleButton sampleHeld) ! 0 \<and>
   neutral sampleButton (aKey (update sampleButton sampleHeld) ! 2) \<and>
   \<not> aUsedAsModifier (refreshed sampleButton sampleHeld) ! 2"
proof -
  have h: "0 < Key_Count sampleHeld" "2 < Key_Count sampleHeld"
    by code_simp+
  have c: "aUsedAsModifier sampleHeld ! 0"
    "\<not> neutral sampleButton (aKey (update sampleButton sampleHeld) ! 0)"
    "neutral sampleButton (aKey (update sampleButton sampleHeld) ! 2)"
    by code_simp+
  note T0 = update_flag_decay [OF wf_sampleHeld h(1), of sampleButton]
  note T2 = update_flag_decay [OF wf_sampleHeld h(2), of sampleButton]
  have a: "aUsedAsModifier (refreshed sampleButton sampleHeld) ! 0"
    using T0 [THEN conjunct1] c(1,2) by blast
  have b: "aUsedAsModifier (update sampleButton sampleHeld) ! 0"
    using T0 [THEN conjunct2] a by blast
  have d: "\<not> aUsedAsModifier (refreshed sampleButton sampleHeld) ! 2"
    using T2 [THEN conjunct1] c(3) by blast
  show ?thesis
    using wf_sampleHeld h c a b d by blast
qed

text \<open>
  C1 as stated fails: in \<open>sampleShared\<close> both events fire in the same cycle, and in the
  next one, each with key 10 (index 0) as its modifier at stored position 1, while
  key 10 is flagged and held.
\<close>

theorem modifier_shared_counterexample:
  "wf sampleShared \<and>
   isEvent (update sampleButton sampleShared) 0 \<and> isEvent (update sampleButton sampleShared) 1 \<and>
   aKeybindSize sampleShared ! 0 = 2 \<and> aKeybind sampleShared ! 0 ! 1 = 0 \<and>
   aKeybindSize sampleShared ! 1 = 2 \<and> aKeybind sampleShared ! 1 ! 1 = 0 \<and>
   aUsedAsModifier (update sampleButton sampleShared) ! 0 \<and>
   \<not> neutral sampleButton (aKey (update sampleButton sampleShared) ! 0) \<and>
   \<not> neutral sampleButton (aKey (update sampleButton (update sampleButton sampleShared)) ! 0) \<and>
   isEvent (update sampleButton (update sampleButton sampleShared)) 0 \<and>
   isEvent (update sampleButton (update sampleButton sampleShared)) 1"
  by code_simp

text \<open>
  C1, amended. Let the flag of key \<open>X\<close> be set when \<open>update\<close> is called (it was marked
  as a modifier when an event fired in an earlier cycle), and let its refreshed state
  be neither none nor have the idle bit. Then no event whose primary key is \<open>X\<close> fires
  in this cycle, and the flag of \<open>X\<close> is still set afterwards, so the same holds for the
  cycles that follow until \<open>X\<close> turns neutral. Nothing keeps \<open>X\<close> from being a modifier
  of events that fire.
\<close>

theorem modifier_exclusive:
  assumes "wf s" "X < Key_Count s" "aUsedAsModifier s ! X"
    "\<not> neutral B (aKey (update B s) ! X)"
  shows "(\<forall>e. aKeybind s ! e ! 0 = X \<longrightarrow> \<not> isEvent (update B s) e) \<and>
         aUsedAsModifier (update B s) ! X"
proof -
  have used: "aUsedAsModifier (refreshed B s) ! X"
    using refreshed_flag [OF assms(1,2), of B] assms(3,4) unfolding update_frame(7) by blast
  have "\<not> isEvent (update B s) e" if "aKeybind s ! e ! 0 = X" for e
  proof
    assume "isEvent (update B s) e"
    from fired_props [OF assms(1) this] that used show False by simp
  qed
  moreover have "aUsedAsModifier (update B s) ! X"
    using flags_update_iff [OF assms(1,2), of B] assms(3,4) by blast
  ultimately show ?thesis by blast
qed

theorem modifier_exclusive_witness:
  "wf sampleHeld \<and> 0 < Key_Count sampleHeld \<and> aUsedAsModifier sampleHeld ! 0 \<and>
   \<not> neutral sampleButton (aKey (update sampleButton sampleHeld) ! 0) \<and>
   aKeybindSize sampleHeld ! 1 = 1 \<and> aKeybind sampleHeld ! 1 ! 0 = 0 \<and>
   aPrimaryKeyState sampleHeld ! 1 AND key_state sampleButton (aKey (update sampleButton sampleHeld) ! 0) \<noteq> 0 \<and>
   \<not> isEvent (update sampleButton sampleHeld) 1 \<and>
   aUsedAsModifier (update sampleButton sampleHeld) ! 0"
proof -
  have h: "0 < Key_Count sampleHeld" "aUsedAsModifier sampleHeld ! 0"
    "\<not> neutral sampleButton (aKey (update sampleButton sampleHeld) ! 0)"
    by code_simp+
  have c: "aKeybindSize sampleHeld ! 1 = 1" "aKeybind sampleHeld ! 1 ! 0 = 0"
    "aPrimaryKeyState sampleHeld ! 1 AND key_state sampleButton (aKey (update sampleButton sampleHeld) ! 0) \<noteq> 0"
    by code_simp+
  note T = modifier_exclusive [OF wf_sampleHeld h]
  have "\<not> isEvent (update sampleButton sampleHeld) 1"
    using T [THEN conjunct1, rule_format, OF c(2)] .
  moreover have "aUsedAsModifier (update sampleButton sampleHeld) ! 0"
    using T [THEN conjunct2] .
  ultimately show ?thesis
    using wf_sampleHeld h c by blast
qed

text \<open>
  The flags are written in the second loop of \<^verbatim>\<open>searchKeybind\<close>, when every candidate is
  chosen: in \<open>sampleBoth\<close> key 10 (index 0) is the modifier of event 0 and the primary
  key of event 1, both fire in the same cycle, and event 1 is held back from the next
  cycle on.
\<close>

lemma primary_and_modifier_same_cycle:
  "wf sampleBoth \<and> \<not> aUsedAsModifier sampleBoth ! 0 \<and>
   aKeybind sampleBoth ! 0 ! 1 = 0 \<and> aKeybind sampleBoth ! 1 ! 0 = 0 \<and>
   isEvent (update sampleButton sampleBoth) 0 \<and> isEvent (update sampleButton sampleBoth) 1 \<and>
   aUsedAsModifier (update sampleButton sampleBoth) ! 0 \<and>
   \<not> isEvent (update sampleButton (update sampleButton sampleBoth)) 1"
  by code_simp

end
